theory Spec2Isabelle
  imports
    Main
    "HOL-Library.Word"
    "HOL-Library.Multiset"
    "HOL-Library.AList"
    "HOL-Library.Char_ord"
    "HOL-Library.List_Lexorder"
begin

text \<open>
  Hostel Dada is a menu of six console modules over global tables. This theory models
  the part of each module that computes; the menu, the prompts and the printing are
  left out, and so is MessyMess, which lists fixed data. Every function takes the
  global data it works on as arguments and returns what the module prints, the data
  afterwards, or both. The first part holds the program and the notions the claims
  need; the second part holds the proofs, module by module.
\<close>

chapter \<open>The program\<close>

section \<open>Machine integers\<close>

text \<open>
  Every \<^verbatim>\<open>int\<close> of the C++ sources is a 32-bit two's complement value. It is
  modelled as a 32-bit word: \<open>+\<close>, \<open>-\<close> and \<open>*\<close> wrap around, the comparisons of
  the sources are the signed ones (\<open><s\<close>, \<open><=s\<close>), and \<open>sint\<close> reads the mathematical
  value. (ISO C++ leaves signed overflow undefined; the wrap-around is what the
  two's complement instructions compute.)
\<close>

type_synonym int32 = "32 word"

section \<open>std::priority_queue\<close>

text \<open>
  Three modules keep their data in a \<^verbatim>\<open>std::priority_queue\<close> over a
  \<^verbatim>\<open>std::vector\<close>. The queue belongs to the C++ library; the order in which it
  returns elements that its comparison does not tell apart depends on the heap
  algorithms behind it. They are modelled here as GNU libstdc++ implements them
  (\<^verbatim>\<open>bits/stl_heap.h\<close>, \<^verbatim>\<open>bits/stl_queue.h\<close>), on a list for the vector, with the
  comparison \<open>cmp\<close> as a parameter. Indices are natural numbers; the only index
  expressions that are negative in the signed arithmetic of the library are
  \<^verbatim>\<open>(holeIndex - 1) / 2\<close> for a hole at 0, which is 0 there as it is here, and
  \<^verbatim>\<open>(len - 2) / 2\<close> for \<open>len < 2\<close>, which the model guards.
\<close>

text \<open>
  \<^verbatim>\<open>std::__push_heap\<close>: the hole moves up while it is below \<open>topIndex\<close> and the
  parent is ordered before the value; then the value is stored in the hole.
\<close>

function push_heap_impl :: "('a \<Rightarrow> 'a \<Rightarrow> bool) \<Rightarrow> 'a list \<Rightarrow> nat \<Rightarrow> nat \<Rightarrow> 'a \<Rightarrow> 'a list" where
  "push_heap_impl cmp first holeIndex topIndex v =
     (let parent = (holeIndex - 1) div 2 in
      if holeIndex > topIndex \<and> cmp (first ! parent) v
      then push_heap_impl cmp (first[holeIndex := first ! parent]) parent topIndex v
      else first[holeIndex := v])"
  by pat_completeness auto
termination
  by (relation "measure (\<lambda>(cmp, first, holeIndex, topIndex, v). holeIndex)") auto

declare push_heap_impl.simps [simp del]

text \<open>
  The loop of \<^verbatim>\<open>std::__adjust_heap\<close>: while the hole has two children, the child
  that is not ordered before its sibling moves up into the hole. The result is the
  array with the final \<open>holeIndex\<close> and \<open>secondChild\<close>.
\<close>

function adjust_heap_loop ::
  "('a \<Rightarrow> 'a \<Rightarrow> bool) \<Rightarrow> 'a list \<Rightarrow> nat \<Rightarrow> nat \<Rightarrow> nat \<Rightarrow> 'a list \<times> nat \<times> nat" where
  "adjust_heap_loop cmp first holeIndex len secondChild =
     (if secondChild < (len - 1) div 2 then
        let secondChild = 2 * (secondChild + 1);
            secondChild = (if cmp (first ! secondChild) (first ! (secondChild - 1))
                           then secondChild - 1 else secondChild)
        in adjust_heap_loop cmp (first[holeIndex := first ! secondChild]) secondChild len secondChild
      else (first, holeIndex, secondChild))"
  by pat_completeness auto
termination
  by (relation "measure (\<lambda>(cmp, first, holeIndex, len, secondChild). len - secondChild)") auto

declare adjust_heap_loop.simps [simp del]

text \<open>
  \<^verbatim>\<open>std::__adjust_heap\<close>: after the loop, a hole whose only child is the last
  element of an even-sized range takes that child; then the value is pushed up from
  the hole with \<^verbatim>\<open>std::__push_heap\<close>.
\<close>

definition adjust_heap :: "('a \<Rightarrow> 'a \<Rightarrow> bool) \<Rightarrow> 'a list \<Rightarrow> nat \<Rightarrow> nat \<Rightarrow> 'a \<Rightarrow> 'a list" where
  "adjust_heap cmp first holeIndex len v =
     (let topIndex = holeIndex;
          (first, holeIndex, secondChild) = adjust_heap_loop cmp first holeIndex len holeIndex;
          (first, holeIndex) =
             (if len mod 2 = 0 \<and> 2 \<le> len \<and> secondChild = (len - 2) div 2
              then let secondChild = 2 * (secondChild + 1)
                   in (first[holeIndex := first ! (secondChild - 1)], secondChild - 1)
              else (first, holeIndex))
      in push_heap_impl cmp first holeIndex topIndex v)"

text \<open>
  \<^verbatim>\<open>std::push_heap\<close> on the whole vector: the last element is the value, its place the
  hole. \<^verbatim>\<open>std::pop_heap\<close> on the whole vector, for more than one element: the last
  element is the value, the first element is stored in the last place, and the heap
  of the elements before it is adjusted from a hole at 0.
\<close>

definition push_heap :: "('a \<Rightarrow> 'a \<Rightarrow> bool) \<Rightarrow> 'a list \<Rightarrow> 'a list" where
  "push_heap cmp c = push_heap_impl cmp c (length c - 1) 0 (c ! (length c - 1))"

definition pop_heap :: "('a \<Rightarrow> 'a \<Rightarrow> bool) \<Rightarrow> 'a list \<Rightarrow> 'a list" where
  "pop_heap cmp c =
     (if length c > 1 then
        let last = length c - 1; v = c ! last
        in adjust_heap cmp (c[last := c ! 0]) 0 last v
      else c)"

text \<open>
  The members of \<^verbatim>\<open>std::priority_queue\<close>: \<^verbatim>\<open>push\<close> is \<^verbatim>\<open>c.push_back(x)\<close> and
  \<^verbatim>\<open>std::push_heap\<close>; \<^verbatim>\<open>pop\<close> is \<^verbatim>\<open>std::pop_heap\<close> and \<^verbatim>\<open>c.pop_back()\<close>;
  \<^verbatim>\<open>top\<close> is \<^verbatim>\<open>c.front()\<close>, only called on a queue that is not empty.
\<close>

definition pq_push :: "('a \<Rightarrow> 'a \<Rightarrow> bool) \<Rightarrow> 'a list \<Rightarrow> 'a \<Rightarrow> 'a list" where
  "pq_push cmp c x = push_heap cmp (c @ [x])"

definition pq_pop :: "('a \<Rightarrow> 'a \<Rightarrow> bool) \<Rightarrow> 'a list \<Rightarrow> 'a list" where
  "pq_pop cmp c = butlast (pop_heap cmp c)"

definition pq_top :: "'a list \<Rightarrow> 'a" where
  "pq_top c = c ! 0"

text \<open>
  The loop that empties a queue, as the modules write it:
  \<^verbatim>\<open>while (!pq.empty()) { auto t = pq.top(); pq.pop(); ... }\<close>, with the elements
  in the order in which they are taken out.
\<close>

function drain :: "('a \<Rightarrow> 'a \<Rightarrow> bool) \<Rightarrow> 'a list \<Rightarrow> 'a list" where
  "drain cmp c = (if c = [] then [] else pq_top c # drain cmp (pq_pop cmp c))"
  by pat_completeness auto
termination
proof (relation "measure (\<lambda>(cmp, c). length c)")
  fix cmp :: "'a \<Rightarrow> 'a \<Rightarrow> bool" and c :: "'a list"
  assume ne: "c \<noteq> []"
  have push: "length (push_heap_impl cmp f h t v) = length f" for f h t v
    by (induction cmp f h t v rule: push_heap_impl.induct)
      (subst push_heap_impl.simps, simp add: Let_def)
  have loop: "length (fst (adjust_heap_loop cmp f h n s)) = length f" for f h n s
    by (induction cmp f h n s rule: adjust_heap_loop.induct)
      (subst adjust_heap_loop.simps, simp add: Let_def)
  have "length (adjust_heap cmp f h n v) = length f" for f h n v
    using loop [of f h n h] by (auto simp: adjust_heap_def Let_def push split: prod.splits)
  then have "length (pq_pop cmp c) = length c - 1"
    by (simp add: pq_pop_def pop_heap_def Let_def)
  with ne show "((cmp, pq_pop cmp c), (cmp, c)) \<in> measure (\<lambda>(cmp, c). length c)"
    by (cases c) simp_all
qed simp

declare drain.simps [simp del]

section \<open>SnackCart\<close>

record Snack =
  name :: string
  quantity :: int32
  price :: int32
  expiry :: string

text \<open>
  \<^verbatim>\<open>stock\<close> is an \<^verbatim>\<open>unordered_map\<close> from a name to a snack. It is modelled as an
  association list: a lookup finds the entry of a key, an update replaces the value in
  place, and the order of the list is the order in which the map is iterated, which
  C++ leaves open. \<^verbatim>\<open>salesHistory\<close> is the vector of (name, profit) pairs.
\<close>

record cart =
  stock :: "(string \<times> Snack) list"
  salesHistory :: "(string \<times> int32) list"

datatype purchase = Purchased | Not_enough_stock_or_invalid_snack

text \<open>
  Option 2 of \<^verbatim>\<open>SnackCart::run\<close>. The test is
  \<^verbatim>\<open>stock.count(name) && stock[name].quantity >= qty\<close>; \<^verbatim>\<open>stock[name]\<close> is
  only evaluated for a name that is present, so nothing is inserted.
\<close>

definition buy :: "cart \<Rightarrow> string \<Rightarrow> int32 \<Rightarrow> purchase \<times> cart" where
  "buy c nm qty =
     (case map_of (stock c) nm of
        None \<Rightarrow> (Not_enough_stock_or_invalid_snack, c)
      | Some s \<Rightarrow>
          if qty <=s quantity s then
            let s' = s\<lparr>quantity := quantity s - qty\<rparr>;
                profit = qty * price s'
            in (Purchased,
                c\<lparr>stock := AList.update nm s' (stock c),
                  salesHistory := salesHistory c @ [(nm, profit)]\<rparr>)
          else (Not_enough_stock_or_invalid_snack, c))"

text \<open>
  \<^verbatim>\<open>ExpiryCompare\<close> is \<^verbatim>\<open>a.expiry > b.expiry\<close> on \<^verbatim>\<open>std::string\<close>: the
  lexicographic order of the characters, a proper prefix before its extensions.
\<close>

definition ExpiryCompare :: "Snack \<Rightarrow> Snack \<Rightarrow> bool" where
  "ExpiryCompare a b \<longleftrightarrow> expiry b < expiry a"

text \<open>
  Option 1 of \<^verbatim>\<open>SnackCart::run\<close>: every snack of the stock is pushed into a local
  priority queue, in the order in which the map is iterated, and the queue is emptied
  into the output.
\<close>

definition view_stock :: "cart \<Rightarrow> Snack list" where
  "view_stock c = drain ExpiryCompare (foldl (pq_push ExpiryCompare) [] (map snd (stock c)))"

text \<open>
  Option 3 of \<^verbatim>\<open>SnackCart::run\<close>: \<^verbatim>\<open>std::sort\<close> reorders \<^verbatim>\<open>salesHistory\<close> itself,
  with the comparison \<^verbatim>\<open>a.second > b.second\<close>; then the entries are printed and added
  up. \<^verbatim>\<open>std::sort\<close> belongs to the C++ library, not to this program: it is a
  parameter of the model, and \<open>std_sort_contract\<close> is what ISO C++ promises of it: the
  range holds the same elements as before, and no element is ordered before an
  earlier one by the comparison. The result is the list printed, the total, and the
  cart afterwards.
\<close>

definition std_sort_contract ::
  "(('a \<Rightarrow> 'a \<Rightarrow> bool) \<Rightarrow> 'a list \<Rightarrow> 'a list) \<Rightarrow> ('a \<Rightarrow> 'a \<Rightarrow> bool) \<Rightarrow> bool" where
  "std_sort_contract std_sort cmp \<longleftrightarrow>
     (\<forall>xs. mset (std_sort cmp xs) = mset xs
         \<and> sorted_wrt (\<lambda>a b. \<not> cmp b a) (std_sort cmp xs))"

definition profit_greater :: "string \<times> int32 \<Rightarrow> string \<times> int32 \<Rightarrow> bool" where
  "profit_greater a b \<longleftrightarrow> snd b <s snd a"

definition view_profit ::
  "((string \<times> int32 \<Rightarrow> string \<times> int32 \<Rightarrow> bool) \<Rightarrow> (string \<times> int32) list \<Rightarrow> (string \<times> int32) list)
   \<Rightarrow> cart \<Rightarrow> ((string \<times> int32) list \<times> int32) \<times> cart" where
  "view_profit std_sort c =
     (let c' = c\<lparr>salesHistory := std_sort profit_greater (salesHistory c)\<rparr>;
          total = foldl (\<lambda>total p. total + snd p) 0 (salesHistory c')
      in ((salesHistory c', total), c'))"

text \<open>The seed data of \<^verbatim>\<open>SnackCart.cpp\<close>.\<close>

definition seed_cart :: cart where
  "seed_cart =
     \<lparr>stock =
        [(''Kurkure'', \<lparr>name = ''Kurkure'', quantity = 10, price = 15, expiry = ''2025-09-01''\<rparr>),
         (''Lays'', \<lparr>name = ''Lays'', quantity = 5, price = 20, expiry = ''2025-08-10''\<rparr>),
         (''Oreo'', \<lparr>name = ''Oreo'', quantity = 8, price = 25, expiry = ''2025-10-05''\<rparr>)],
      salesHistory = []\<rparr>"

section \<open>RoomieMatcher\<close>












section \<open>LaundryLoad\<close>

text \<open>
  \<^verbatim>\<open>std::vector<std::pair<int, int>> slots\<close>: the booked hour intervals, in
  insertion order.
\<close>

type_synonym slot = "int32 \<times> int32"

datatype booking = Slot_booked | Clash_detected

text \<open>
  The scan of \<^verbatim>\<open>LaundryLoad::run\<close>: \<^verbatim>\<open>clash\<close> starts as false and the loop
  stops at the first stored slot \<open>s\<close> with
  \<^verbatim>\<open>!(end <= s.first || start >= s.second)\<close>.
\<close>

fun clash :: "int32 \<Rightarrow> int32 \<Rightarrow> slot list \<Rightarrow> bool" where
  "clash start en [] = False"
| "clash start en (s # ss) =
     (if \<not> (en <=s fst s \<or> snd s <=s start) then True else clash start en ss)"

text \<open>
  The booking part of \<^verbatim>\<open>LaundryLoad::run\<close>, with the global \<^verbatim>\<open>slots\<close> passed in
  and returned: the message printed and the slots afterwards.
\<close>

definition LaundryLoad_run :: "slot list \<Rightarrow> int32 \<Rightarrow> int32 \<Rightarrow> booking \<times> slot list" where
  "LaundryLoad_run slots start en =
     (if \<not> clash start en slots then (Slot_booked, slots @ [(start, en)])
      else (Clash_detected, slots))"

text \<open>The seed data of \<^verbatim>\<open>LaundryLoad.cpp\<close>.\<close>

definition seed_slots :: "slot list" where
  "seed_slots = [(9, 10), (10, 11), (11, 12)]"

section \<open>HostelFixer: the task queue\<close>

record Task =
  desc :: string
  urgency :: int32

text \<open>
  \<^verbatim>\<open>tasks\<close> is a \<^verbatim>\<open>std::priority_queue<Task, std::vector<Task>, std::greater<Task>>\<close>:
  its comparison is \<^verbatim>\<open>Task::operator>\<close>, which compares the urgencies.
\<close>

definition task_greater :: "Task \<Rightarrow> Task \<Rightarrow> bool" where
  "task_greater a b \<longleftrightarrow> urgency b <s urgency a"

text \<open>
  The first part of \<^verbatim>\<open>HostelFixer::run\<close>: \<^verbatim>\<open>tasks.push({desc, urg})\<close>, then a copy
  of the queue is emptied and each task printed. The result is the list printed and
  the queue afterwards.
\<close>

definition add_task :: "Task list \<Rightarrow> string \<Rightarrow> int32 \<Rightarrow> Task list" where
  "add_task tasks d urg = pq_push task_greater tasks \<lparr>desc = d, urgency = urg\<rparr>"

definition urgent_tasks :: "Task list \<Rightarrow> Task list" where
  "urgent_tasks tasks = drain task_greater tasks"

definition HostelFixer_tasks :: "Task list \<Rightarrow> string \<Rightarrow> int32 \<Rightarrow> Task list \<times> Task list" where
  "HostelFixer_tasks tasks d urg =
     (let tasks = add_task tasks d urg in (urgent_tasks tasks, tasks))"

text \<open>The queue after a sequence of runs, from the empty queue of the start.\<close>

definition tasks_after :: "(string \<times> int32) list \<Rightarrow> Task list" where
  "tasks_after inputs = foldl (\<lambda>tasks (d, urg). snd (HostelFixer_tasks tasks d urg)) [] inputs"

section \<open>HostelFixer: the shortest path\<close>

text \<open>
  \<^verbatim>\<open>graph\<close> is a \<^verbatim>\<open>std::map\<close> from a node to its outgoing edges, given by an
  initialiser list (of two entries with one key it keeps the first). \<^verbatim>\<open>graph[u]\<close>
  of a node without an entry is the empty list; it also adds that entry to the map,
  which this run never looks at again.
\<close>

type_synonym graph = "(string \<times> (string \<times> int32) list) list"

definition edges_of :: "graph \<Rightarrow> string \<Rightarrow> (string \<times> int32) list" where
  "edges_of graph u = (case map_of graph u of None \<Rightarrow> [] | Some es \<Rightarrow> es)"

text \<open>
  \<^verbatim>\<open>dist\<close> is a \<^verbatim>\<open>std::map<std::string, int>\<close> that the code reads and writes
  with \<^verbatim>\<open>operator[]\<close> only: a key that was never written reads as 0. It is modelled
  as a function. The loop \<^verbatim>\<open>for (auto& kv : graph) dist[kv.first] = 1e9;\<close> gives
  every key of the graph the value 1000000000.
\<close>

definition init_dist :: "graph \<Rightarrow> string \<Rightarrow> int32" where
  "init_dist graph = fold (\<lambda>kv dist. dist(fst kv := 1000000000)) graph (\<lambda>v. 0)"

text \<open>
  The queue holds pairs (distance, node) under \<^verbatim>\<open>std::greater<>\<close>, that is
  \<^verbatim>\<open>operator>\<close> of \<^verbatim>\<open>std::pair\<close>: the lexicographic order of the two components.
\<close>

definition pair_greater :: "int32 \<times> string \<Rightarrow> int32 \<times> string \<Rightarrow> bool" where
  "pair_greater a b \<longleftrightarrow> fst b <s fst a \<or> (\<not> fst a <s fst b \<and> snd b < snd a)"

text \<open>
  The inner loop \<^verbatim>\<open>for (auto& [v, w] : graph[u])\<close>:
  \<^verbatim>\<open>if (dist[v] > dist[u] + w) { dist[v] = dist[u] + w; pq.push({dist[v], v}); }\<close>.
\<close>

fun relax ::
  "string \<Rightarrow> (string \<times> int32) list \<Rightarrow> (string \<Rightarrow> int32) \<times> (int32 \<times> string) list
   \<Rightarrow> (string \<Rightarrow> int32) \<times> (int32 \<times> string) list" where
  "relax u [] (dist, pq) = (dist, pq)"
| "relax u ((v, w) # es) (dist, pq) =
     (if dist u + w <s dist v
      then relax u es (dist(v := dist u + w), pq_push pair_greater pq (dist u + w, v))
      else relax u es (dist, pq))"

text \<open>
  The loop \<^verbatim>\<open>while (!pq.empty())\<close>: the top pair \<open>(d, u)\<close> is taken out; it is skipped
  if \<^verbatim>\<open>d > dist[u]\<close>, otherwise the edges of \<open>u\<close> are relaxed. Nothing in the code
  bounds the number of rounds, so the loop is a partial function: \<open>None\<close> stands for a
  loop that does not end.
\<close>

partial_function (option) dijkstra_loop ::
  "graph \<Rightarrow> (string \<Rightarrow> int32) \<Rightarrow> (int32 \<times> string) list \<Rightarrow> (string \<Rightarrow> int32) option" where
  "dijkstra_loop graph dist pq =
     (if pq = [] then Some dist
      else if dist (snd (pq_top pq)) <s fst (pq_top pq)
           then dijkstra_loop graph dist (pq_pop pair_greater pq)
           else dijkstra_loop graph
                  (fst (relax (snd (pq_top pq)) (edges_of graph (snd (pq_top pq)))
                          (dist, pq_pop pair_greater pq)))
                  (snd (relax (snd (pq_top pq)) (edges_of graph (snd (pq_top pq)))
                          (dist, pq_pop pair_greater pq))))"

declare dijkstra_loop.simps [code]

text \<open>
  The second part of \<^verbatim>\<open>HostelFixer::run\<close>, with the graph, \<^verbatim>\<open>src\<close> and \<^verbatim>\<open>dest\<close>
  as parameters: the value printed as the shortest path, \<^verbatim>\<open>dist[dest]\<close>.
\<close>

definition shortest_path :: "graph \<Rightarrow> string \<Rightarrow> string \<Rightarrow> int32 option" where
  "shortest_path graph src dest =
     map_option (\<lambda>dist. dist dest)
       (dijkstra_loop graph ((init_dist graph)(src := 0)) (pq_push pair_greater [] (0, src)))"

text \<open>The graph of \<^verbatim>\<open>HostelFixer.cpp\<close>.\<close>

definition seed_graph :: graph where
  "seed_graph =
     [(''Gate'', [(''Mess'', 2), (''Laundry'', 4)]),
      (''Mess'', [(''Gate'', 2), (''Laundry'', 1)]),
      (''Laundry'', [(''Gate'', 4), (''Mess'', 1)])]"

section \<open>FoodFight\<close>

text \<open>
  \<^verbatim>\<open>FoodFight::run\<close> works on the global \<^verbatim>\<open>entryTimes\<close> and the local constant
  \<^verbatim>\<open>window = 2\<close>; both are parameters here, the window as a natural number, as
  the loops use it. Indices are \<^verbatim>\<open>size_t\<close> values, the counts are \<^verbatim>\<open>int\<close>. Reading a vector outside its range is undefined in C++: the model
  checks each read of \<^verbatim>\<open>entryTimes\<close> and has no result (\<open>None\<close>) when one is out of
  range. The reads of \<^verbatim>\<open>prefix\<close> are at \<open>i\<close> and \<open>i + window\<close> with
  \<open>i + window \<le> size\<close>, inside its \<open>size + 1\<close> elements.
\<close>

record report =
  window_lines :: "(int32 \<times> int32 \<times> int32) list"
  best_time :: int32
  min_queue :: int32

definition elem :: "'a list \<Rightarrow> nat \<Rightarrow> 'a option" where
  "elem xs i = (if i < length xs then Some (xs ! i) else None)"

text \<open>
  \<^verbatim>\<open>std::vector<int> prefix(entryTimes.size() + 1, 0);\<close> and the loop
  \<^verbatim>\<open>prefix[i+1] = prefix[i] + 1\<close> for \<open>i\<close> from 0 below the size.
\<close>

definition prefix_counts :: "int32 list \<Rightarrow> int32 list" where
  "prefix_counts entryTimes =
     fold (\<lambda>i prefix. prefix[i + 1 := prefix ! i + 1]) [0 ..< length entryTimes]
       (replicate (length entryTimes + 1) 0)"

text \<open>
  Both loops run \<^verbatim>\<open>for (size_t i = 0; i + window <= entryTimes.size(); ++i)\<close>: over the
  indices below \<open>size + 1 - window\<close>, in order.
\<close>

definition window_starts :: "nat \<Rightarrow> nat \<Rightarrow> nat list" where
  "window_starts n window = [0 ..< Suc n - window]"

text \<open>
  The first loop prints, for each window, \<^verbatim>\<open>entryTimes[i]\<close>,
  \<^verbatim>\<open>entryTimes[i+window-1]\<close> and \<^verbatim>\<open>cnt = prefix[i+window] - prefix[i]\<close>.
  For \<open>i + window = 0\<close> the index \<open>i + window - 1\<close> wraps to the largest
  \<^verbatim>\<open>size_t\<close>, out of range.
\<close>

fun queue_lines ::
  "int32 list \<Rightarrow> int32 list \<Rightarrow> nat \<Rightarrow> nat list \<Rightarrow> (int32 \<times> int32 \<times> int32) list option" where
  "queue_lines entryTimes prefix window [] = Some []"
| "queue_lines entryTimes prefix window (i # rest) =
     (case elem entryTimes i of
        None \<Rightarrow> None
      | Some t \<Rightarrow>
         (case (if i + window = 0 then None else elem entryTimes (i + window - 1)) of
            None \<Rightarrow> None
          | Some t' \<Rightarrow>
             (case queue_lines entryTimes prefix window rest of
                None \<Rightarrow> None
              | Some ls \<Rightarrow> Some ((t, t', prefix ! (i + window) - prefix ! i) # ls))))"

text \<open>
  The second loop keeps the least count seen in \<^verbatim>\<open>minQueue\<close> and the start of its
  window in \<^verbatim>\<open>bestTime\<close>: \<^verbatim>\<open>if (cnt < minQueue) { minQueue = cnt; bestTime = entryTimes[i]; }\<close>.
\<close>

fun best_entry ::
  "int32 list \<Rightarrow> int32 list \<Rightarrow> nat \<Rightarrow> nat list \<Rightarrow> int32 \<times> int32 \<Rightarrow> (int32 \<times> int32) option" where
  "best_entry entryTimes prefix window [] (bestTime, minQueue) = Some (bestTime, minQueue)"
| "best_entry entryTimes prefix window (i # rest) (bestTime, minQueue) =
     (let cnt = prefix ! (i + window) - prefix ! i in
      if cnt <s minQueue then
        (case elem entryTimes i of
           None \<Rightarrow> None
         | Some t \<Rightarrow> best_entry entryTimes prefix window rest (t, cnt))
      else best_entry entryTimes prefix window rest (bestTime, minQueue))"

text \<open>
  \<^verbatim>\<open>FoodFight::run\<close>: the window lines, then
  \<^verbatim>\<open>int bestTime = entryTimes[0], minQueue = entryTimes.size();\<close>, the second loop, and
  the line "Best time to enter", which is printed in every run.
\<close>

definition FoodFight_run :: "int32 list \<Rightarrow> nat \<Rightarrow> report option" where
  "FoodFight_run entryTimes window =
     (let prefix = prefix_counts entryTimes;
          starts = window_starts (length entryTimes) window
      in case queue_lines entryTimes prefix window starts of
           None \<Rightarrow> None
         | Some ls \<Rightarrow>
            (case elem entryTimes 0 of
               None \<Rightarrow> None
             | Some t0 \<Rightarrow>
                (case best_entry entryTimes prefix window starts (t0, of_nat (length entryTimes)) of
                   None \<Rightarrow> None
                 | Some (b, m) \<Rightarrow> Some \<lparr>window_lines = ls, best_time = b, min_queue = m\<rparr>)))"

definition seed_entryTimes :: "int32 list" where
  "seed_entryTimes = [1, 2, 2, 3, 4, 4, 5]"

section \<open>Notions of the claims\<close>

text \<open>
  What follows is not code of the program: the words the claims use (the hours of a
  slot, the walks of a graph), the example data of the counterexamples, and the
  invariants of the proofs.
\<close>

text \<open>The half-open interval of hours a slot stands for.\<close>

definition hours :: "slot \<Rightarrow> int set" where
  "hours s = {sint (fst s) ..< sint (snd s)}"

text \<open>
  A sort that meets the contract for the comparison of the profit view: insertion
  into a list kept in descending order of profit.
\<close>

definition insertion_sort_profit ::
  "(string \<times> int32 \<Rightarrow> string \<times> int32 \<Rightarrow> bool) \<Rightarrow> (string \<times> int32) list \<Rightarrow> (string \<times> int32) list" where
  "insertion_sort_profit cmp xs = rev (sort_key (\<lambda>p. sint (snd p)) xs)"

text \<open>
  The comparisons of the modules all have the form "the key of \<open>a\<close> is greater than
  the key of \<open>b\<close>". For such a comparison the array is a heap when no element has a key
  below that of its parent, the element at \<open>(i - 1) div 2\<close>.
\<close>

definition heap_upto :: "('a \<Rightarrow> 'k::linorder) \<Rightarrow> 'a list \<Rightarrow> nat \<Rightarrow> bool" where
  "heap_upto key xs n \<longleftrightarrow> (\<forall>i. 0 < i \<and> i < n \<longrightarrow> key (xs ! ((i - 1) div 2)) \<le> key (xs ! i))"

text \<open>
  While a value \<open>v\<close> travels up from a hole: with \<open>v\<close> in the hole, the order holds
  everywhere except between the hole and its parent, and the children of the hole
  are not below the parent of the hole.
\<close>

definition hole_upto :: "('a \<Rightarrow> 'k::linorder) \<Rightarrow> 'a list \<Rightarrow> nat \<Rightarrow> 'a \<Rightarrow> nat \<Rightarrow> bool" where
  "hole_upto key xs hole v n \<longleftrightarrow>
     hole < n \<and> n \<le> length xs
     \<and> (\<forall>i. 0 < i \<and> i < n \<and> i \<noteq> hole \<longrightarrow>
           key (xs[hole := v] ! ((i - 1) div 2)) \<le> key (xs[hole := v] ! i))
     \<and> (\<forall>i. 0 < i \<and> i < n \<and> (i - 1) div 2 = hole \<and> 0 < hole \<longrightarrow>
           key (xs ! ((hole - 1) div 2)) \<le> key (xs ! i))"

text \<open>
  The walks of a graph: \<open>walk graph u c v\<close> when edges of the graph lead from \<open>u\<close> to
  \<open>v\<close> and their weights add up to \<open>c\<close>, as a sum of integers.
\<close>

inductive walk :: "graph \<Rightarrow> string \<Rightarrow> int \<Rightarrow> string \<Rightarrow> bool" for graph u where
  walk_refl: "walk graph u 0 u"
| walk_step: "walk graph u c v \<Longrightarrow> (x, w) \<in> set (edges_of graph v) \<Longrightarrow> walk graph u (c + sint w) x"

text \<open>
  What the proofs below ask of a graph: every weight is at least 0 and at most
  \<open>2^31 - 1 - 10^9\<close>, so that \<^verbatim>\<open>dist[u] + w\<close> never leaves the range of \<^verbatim>\<open>int\<close>.
\<close>

definition weights_ok :: "graph \<Rightarrow> bool" where
  "weights_ok graph \<longleftrightarrow>
     (\<forall>u v w. (v, w) \<in> set (edges_of graph u) \<longrightarrow> 0 \<le> sint w \<and> sint w \<le> 1147483647)"

text \<open>A node is relaxed when no edge out of it can lower a distance any more.\<close>

definition relaxed :: "graph \<Rightarrow> (string \<Rightarrow> int32) \<Rightarrow> string \<Rightarrow> bool" where
  "relaxed graph dist u \<longleftrightarrow>
     (\<forall>v w. (v, w) \<in> set (edges_of graph u) \<longrightarrow> sint (dist v) \<le> sint (dist u) + sint w)"

text \<open>
  The distances during a run: between 0 and \<open>10^9\<close>; 0 for the source and for every
  node that is no key of the graph; and for every node either the weight of a walk
  from the source or still the value it was initialised with.
\<close>

definition dist_inv :: "graph \<Rightarrow> string \<Rightarrow> (string \<Rightarrow> int32) \<Rightarrow> bool" where
  "dist_inv graph src dist \<longleftrightarrow>
     (\<forall>v. 0 \<le> sint (dist v) \<and> sint (dist v) \<le> 1000000000)
     \<and> (\<forall>v. v \<notin> fst ` set graph \<longrightarrow> dist v = 0)
     \<and> dist src = 0
     \<and> (\<forall>v. walk graph src (sint (dist v)) v \<or> dist v = init_dist graph v)"

text \<open>The sum of the distances of the keys: it falls with every assignment to \<^verbatim>\<open>dist\<close>.\<close>

definition potential :: "graph \<Rightarrow> (string \<Rightarrow> int32) \<Rightarrow> nat" where
  "potential graph dist = (\<Sum>v \<in> fst ` set graph. nat (sint (dist v)))"

text \<open>
  Two nodes without edges; one edge of weight \<open>10^9\<close>; and a chain of two edges whose
  weights add up to more than \<open>10^9\<close>.
\<close>

definition island_graph :: graph where
  "island_graph = [(''A'', []), (''B'', [])]"

definition long_edge_graph :: graph where
  "long_edge_graph = [(''A'', [(''B'', 1000000000)]), (''B'', [])]"

definition chain_graph :: graph where
  "chain_graph = [(''A'', [(''B'', 600000000)]), (''B'', [(''C'', 600000000)]), (''C'', [])]"

chapter \<open>The claims\<close>

section \<open>Reading 32-bit results\<close>

lemma sint32_range: "- 2147483648 \<le> sint (x :: int32) \<and> sint x \<le> 2147483647"
  using sint_ge [of x] sint_lt [of x] by simp

lemma sint32_add:
  "- 2147483648 \<le> sint a + sint b \<Longrightarrow> sint a + sint b \<le> 2147483647 \<Longrightarrow>
   sint (a + b :: int32) = sint a + sint b"
  by (simp add: sint_word_add signed_take_bit_int_eq_self)

lemma sint32_diff:
  "- 2147483648 \<le> sint a - sint b \<Longrightarrow> sint a - sint b \<le> 2147483647 \<Longrightarrow>
   sint (a - b :: int32) = sint a - sint b"
  by (simp add: sint_word_diff signed_take_bit_int_eq_self)

lemma sint32_mult:
  "- 2147483648 \<le> sint a * sint b \<Longrightarrow> sint a * sint b \<le> 2147483647 \<Longrightarrow>
   sint (a * b :: int32) = sint a * sint b"
  by (simp add: sint_word_mult signed_take_bit_int_eq_self)

lemma sint32_of_nat: "n < 2147483648 \<Longrightarrow> sint (of_nat n :: int32) = int n"
  by (simp add: signed_of_nat signed_take_bit_int_eq_self)

section \<open>std::priority_queue: elements and order\<close>

subsection \<open>Sizes\<close>

lemma length_push_heap_impl [simp]:
  "length (push_heap_impl cmp first holeIndex topIndex v) = length first"
proof (induction cmp first holeIndex topIndex v rule: push_heap_impl.induct)
  case (1 cmp first holeIndex topIndex v)
  then show ?case
    by (subst push_heap_impl.simps) (simp add: Let_def)
qed

lemma length_adjust_heap_loop [simp]:
  "length (fst (adjust_heap_loop cmp first holeIndex len secondChild)) = length first"
proof (induction cmp first holeIndex len secondChild rule: adjust_heap_loop.induct)
  case (1 cmp first holeIndex len secondChild)
  then show ?case
    by (subst adjust_heap_loop.simps) (simp add: Let_def)
qed

lemma length_adjust_heap [simp]: "length (adjust_heap cmp first holeIndex len v) = length first"
proof -
  obtain f h s where l: "adjust_heap_loop cmp first holeIndex len holeIndex = (f, h, s)"
    by (cases "adjust_heap_loop cmp first holeIndex len holeIndex") auto
  with length_adjust_heap_loop [of cmp first holeIndex len holeIndex]
  have "length f = length first" by simp
  with l show ?thesis
    by (simp add: adjust_heap_def Let_def)
qed

lemma length_pop_heap [simp]: "length (pop_heap cmp c) = length c"
  by (simp add: pop_heap_def Let_def)

lemma length_pq_pop [simp]: "length (pq_pop cmp c) = length c - 1"
  by (simp add: pq_pop_def)

lemma length_pq_push [simp]: "length (pq_push cmp c x) = Suc (length c)"
  by (simp add: pq_push_def push_heap_def)

subsection \<open>The elements of the queue\<close>

lemma mset_update_swap:
  assumes "i < length xs" and "j < length xs"
  shows "mset (xs[i := xs ! j, j := v]) = mset (xs[i := v])"
proof (cases "i = j")
  case True
  then show ?thesis by simp
next
  case False
  with assms show ?thesis
    by (simp add: mset_update nth_list_update)
qed

lemma mset_push_heap_impl:
  "holeIndex < length first \<Longrightarrow>
   mset (push_heap_impl cmp first holeIndex topIndex v) = mset (first[holeIndex := v])"
proof (induction cmp first holeIndex topIndex v rule: push_heap_impl.induct)
  case (1 cmp first holeIndex topIndex v)
  let ?parent = "(holeIndex - 1) div 2"
  show ?case
  proof (cases "holeIndex > topIndex \<and> cmp (first ! ?parent) v")
    case True
    with "1.prems" have p: "?parent < length first"
      by auto
    from True "1.IH" [OF refl True] p
    have "mset (push_heap_impl cmp (first[holeIndex := first ! ?parent]) ?parent topIndex v)
          = mset (first[holeIndex := first ! ?parent, ?parent := v])"
      by simp
    also have "\<dots> = mset (first[holeIndex := v])"
      using "1.prems" p by (rule mset_update_swap)
    finally show ?thesis
      using True by (subst push_heap_impl.simps) (simp add: Let_def)
  next
    case False
    then show ?thesis
      by (subst push_heap_impl.simps) (auto simp: Let_def)
  qed
qed

lemma nth_push_heap_impl:
  "holeIndex < k \<Longrightarrow> push_heap_impl cmp first holeIndex topIndex v ! k = first ! k"
proof (induction cmp first holeIndex topIndex v rule: push_heap_impl.induct)
  case (1 cmp first holeIndex topIndex v)
  let ?parent = "(holeIndex - 1) div 2"
  show ?case
  proof (cases "holeIndex > topIndex \<and> cmp (first ! ?parent) v")
    case True
    with "1.prems" have "?parent < k" by auto
    with True "1.IH" [OF refl True] "1.prems" show ?thesis
      by (subst push_heap_impl.simps) (simp add: Let_def)
  next
    case False
    with "1.prems" show ?thesis
      by (subst push_heap_impl.simps) (auto simp: Let_def)
  qed
qed

text \<open>What the loop of \<^verbatim>\<open>std::__adjust_heap\<close> keeps, for a hole at \<open>secondChild\<close>.\<close>

lemma adjust_heap_loop_keeps:
  assumes "secondChild = holeIndex" and "holeIndex < len" and "len \<le> length first"
    and "adjust_heap_loop cmp first holeIndex len secondChild = (first', holeIndex', secondChild')"
  shows "mset (first'[holeIndex' := v]) = mset (first[holeIndex := v])
       \<and> holeIndex' < len \<and> secondChild' = holeIndex' \<and> \<not> holeIndex' < (len - 1) div 2
       \<and> (\<forall>k \<ge> len. first' ! k = first ! k)"
  using assms
proof (induction cmp first holeIndex len secondChild arbitrary: first' holeIndex' secondChild'
    rule: adjust_heap_loop.induct)
  case (1 cmp first holeIndex len secondChild)
  note eq = \<open>secondChild = holeIndex\<close>
  show ?case
  proof (cases "secondChild < (len - 1) div 2")
    case True
    define sc where "sc = 2 * (secondChild + 1)"
    define sc' where "sc' = (if cmp (first ! sc) (first ! (sc - 1)) then sc - 1 else sc)"
    from True eq have b: "sc' < len" "holeIndex < sc'"
      by (auto simp: sc_def sc'_def)
    have "adjust_heap_loop cmp first holeIndex len secondChild
        = adjust_heap_loop cmp (first[holeIndex := first ! sc']) sc' len sc'"
      using True by (subst adjust_heap_loop.simps) (simp add: Let_def sc_def sc'_def)
    with "1.prems"(4)
    have l: "adjust_heap_loop cmp (first[holeIndex := first ! sc']) sc' len sc' = (first', holeIndex', secondChild')"
      by simp
    from "1.prems" b have sw: "mset (first[holeIndex := first ! sc', sc' := v]) = mset (first[holeIndex := v])"
      by (intro mset_update_swap) auto
    from "1.prems" b
    have "mset (first'[holeIndex' := v]) = mset (first[holeIndex := first ! sc', sc' := v])
       \<and> holeIndex' < len \<and> secondChild' = holeIndex' \<and> \<not> holeIndex' < (len - 1) div 2
       \<and> (\<forall>k \<ge> len. first' ! k = first[holeIndex := first ! sc'] ! k)"
      by (intro "1.IH" [OF True sc_def sc'_def refl _ _ l]) auto
    with sw "1.prems" show ?thesis
      by auto
  next
    case False
    with "1.prems" show ?thesis
      by (subst (asm) adjust_heap_loop.simps) auto
  qed
qed

lemma adjust_heap_keeps:
  assumes "holeIndex < len" and "len \<le> length first"
  shows "mset (adjust_heap cmp first holeIndex len v) = mset (first[holeIndex := v])
       \<and> (\<forall>k \<ge> len. adjust_heap cmp first holeIndex len v ! k = first ! k)"
proof -
  obtain f h s where l: "adjust_heap_loop cmp first holeIndex len holeIndex = (f, h, s)"
    by (cases "adjust_heap_loop cmp first holeIndex len holeIndex") auto
  from adjust_heap_loop_keeps [OF refl assms l, of v]
  have m: "mset (f[h := v]) = mset (first[holeIndex := v])" and h: "h < len" "s = h"
    and k: "\<forall>k \<ge> len. f ! k = first ! k"
    by auto
  have lf: "length f = length first"
    using length_adjust_heap_loop [of cmp first holeIndex len holeIndex] l by simp
  show ?thesis
  proof (cases "len mod 2 = 0 \<and> 2 \<le> len \<and> s = (len - 2) div 2")
    case True
    define hole where "hole = 2 * (s + 1) - 1"
    from True have last: "hole = len - 1" "len - 1 < len"
      unfolding hole_def by presburger+
    from True l have "adjust_heap cmp first holeIndex len v
        = push_heap_impl cmp (f[h := f ! hole]) hole holeIndex v"
      by (simp add: adjust_heap_def Let_def hole_def)
    then have a: "adjust_heap cmp first holeIndex len v
        = push_heap_impl cmp (f[h := f ! (len - 1)]) (len - 1) holeIndex v"
      by (simp add: last)
    from h lf assms last have "mset (f[h := f ! (len - 1), len - 1 := v]) = mset (f[h := v])"
      by (intro mset_update_swap) auto
    with m assms lf last have "mset (adjust_heap cmp first holeIndex len v) = mset (first[holeIndex := v])"
      by (simp add: a mset_push_heap_impl)
    moreover from k h last have "\<forall>k \<ge> len. adjust_heap cmp first holeIndex len v ! k = first ! k"
      by (simp add: a nth_push_heap_impl)
    ultimately show ?thesis by blast
  next
    case False
    with l have a: "adjust_heap cmp first holeIndex len v = push_heap_impl cmp f h holeIndex v"
      by (auto simp: adjust_heap_def Let_def)
    from m h lf assms have "mset (adjust_heap cmp first holeIndex len v) = mset (first[holeIndex := v])"
      by (simp add: a mset_push_heap_impl)
    moreover from k h have "\<forall>k \<ge> len. adjust_heap cmp first holeIndex len v ! k = first ! k"
      by (simp add: a nth_push_heap_impl)
    ultimately show ?thesis by blast
  qed
qed

lemma mset_pq_push: "mset (pq_push cmp c x) = add_mset x (mset c)"
  by (simp add: pq_push_def push_heap_def mset_push_heap_impl)

lemma mset_pq_pop:
  assumes "c \<noteq> []"
  shows "mset (pq_pop cmp c) = mset c - {#pq_top c#}"
proof (cases "length c > 1")
  case True
  let ?last = "length c - 1"
  let ?r = "adjust_heap cmp (c[?last := c ! 0]) 0 ?last (c ! ?last)"
  from True have p: "pop_heap cmp c = ?r"
    by (simp add: pop_heap_def Let_def)
  from True adjust_heap_keeps [of 0 ?last "c[?last := c ! 0]" cmp "c ! ?last"]
  have m: "mset ?r = mset (c[?last := c ! 0, 0 := c ! ?last])" and k: "?r ! ?last = c ! 0"
    by auto
  from True have "mset (c[?last := c ! 0, 0 := c ! ?last]) = mset (c[?last := c ! ?last])"
    by (intro mset_update_swap) auto
  with m have m': "mset ?r = mset c"
    by simp
  have ne: "?r \<noteq> []"
    using True by (metis length_adjust_heap length_list_update list.size(3) not_less_zero)
  then have "mset (butlast ?r) = mset ?r - {#last ?r#}"
    by (metis add_mset_remove_trivial append_butlast_last_id mset.simps(2) mset_append union_mset_add_mset_right add.right_neutral mset.simps(1))
  moreover from ne have "last ?r = ?r ! ?last"
    by (simp add: last_conv_nth)
  ultimately show ?thesis
    using k m' by (simp add: pq_pop_def p pq_top_def)
next
  case False
  with assms obtain x where "c = [x]"
    by (cases c) auto
  then show ?thesis
    by (simp add: pq_pop_def pop_heap_def pq_top_def)
qed

lemma set_pq_push: "set (pq_push cmp c x) = insert x (set c)"
  using mset_pq_push [of cmp c x] by (metis set_mset_add_mset_insert set_mset_mset)

lemma pq_push_empty: "pq_push cmp [] x = [x]"
  by (simp add: pq_push_def push_heap_def push_heap_impl.simps)

subsection \<open>The heap order\<close>

lemma hole_upto_step:
  assumes inv: "hole_upto key xs hole v n" and pos: "0 < hole"
    and lt: "key v < key (xs ! ((hole - 1) div 2))"
  shows "hole_upto key (xs[hole := xs ! ((hole - 1) div 2)]) ((hole - 1) div 2) v n"
proof -
  let ?p = "(hole - 1) div 2"
  let ?xs' = "xs[hole := xs ! ?p]"
  from inv have hn: "hole < n" and nl: "n \<le> length xs"
    and o1: "\<And>i. 0 < i \<Longrightarrow> i < n \<Longrightarrow> i \<noteq> hole \<Longrightarrow>
        key (xs[hole := v] ! ((i - 1) div 2)) \<le> key (xs[hole := v] ! i)"
    and o2: "\<And>i. 0 < i \<Longrightarrow> i < n \<Longrightarrow> (i - 1) div 2 = hole \<Longrightarrow>
        key (xs ! ?p) \<le> key (xs ! i)"
    using pos by (auto simp: hole_upto_def)
  from pos have ph: "?p < hole" by auto
  have up: "key (xs ! ((i - 1) div 2)) \<le> key (xs ! i)"
    if "0 < i" "i < n" "i \<noteq> hole" "(i - 1) div 2 \<noteq> hole" for i
    using o1 [OF that(1-3)] that by simp
  have a: "key (?xs'[?p := v] ! ((i - 1) div 2)) \<le> key (?xs'[?p := v] ! i)"
    if i: "0 < i" "i < n" "i \<noteq> ?p" for i
  proof -
    have il: "i < length xs" "(i - 1) div 2 < length xs" "(i - 1) div 2 < i"
      using i nl by auto
    consider "i = hole" | "i \<noteq> hole" "(i - 1) div 2 = ?p"
      | "i \<noteq> hole" "(i - 1) div 2 = hole" | "i \<noteq> hole" "(i - 1) div 2 \<noteq> ?p" "(i - 1) div 2 \<noteq> hole"
      by blast
    then show ?thesis
    proof cases
      case 1
      with lt ph hn nl show ?thesis by simp
    next
      case 2
      with up [of i] i ph have "key (xs ! ?p) \<le> key (xs ! i)" by simp
      with lt 2 i il ph hn nl show ?thesis by simp
    next
      case 3
      with o2 [of i] i have "key (xs ! ?p) \<le> key (xs ! i)" by simp
      with 3 i il ph hn nl show ?thesis by simp
    next
      case 4
      with up [of i] i il show ?thesis by simp
    qed
  qed
  have b: "key (?xs' ! ((?p - 1) div 2)) \<le> key (?xs' ! i)"
    if i: "0 < i" "i < n" "(i - 1) div 2 = ?p" "0 < ?p" for i
  proof -
    have pp: "(?p - 1) div 2 < ?p" using i(4) by auto
    from up [of ?p] i(4) ph hn have g: "key (xs ! ((?p - 1) div 2)) \<le> key (xs ! ?p)"
      by simp
    show ?thesis
    proof (cases "i = hole")
      case True
      with g pp ph hn nl show ?thesis by simp
    next
      case False
      with up [of i] i ph have "key (xs ! ?p) \<le> key (xs ! i)" by simp
      with g False pp ph show ?thesis by simp
    qed
  qed
  show ?thesis
    unfolding hole_upto_def
  proof (intro conjI allI impI)
    show "?p < n" using ph hn by simp
    show "n \<le> length ?xs'" using nl by simp
  next
    fix i assume "0 < i \<and> i < n \<and> i \<noteq> ?p"
    then show "key (?xs'[?p := v] ! ((i - 1) div 2)) \<le> key (?xs'[?p := v] ! i)"
      using a by blast
  next
    fix i assume "0 < i \<and> i < n \<and> (i - 1) div 2 = ?p \<and> 0 < ?p"
    then show "key (?xs' ! ((?p - 1) div 2)) \<le> key (?xs' ! i)"
      using b by blast
  qed
qed

lemma heap_push_heap_impl:
  assumes cmp: "\<And>a b. cmp a b \<longleftrightarrow> key b < key a"
  shows "hole_upto key xs hole v n \<Longrightarrow> heap_upto key (push_heap_impl cmp xs hole 0 v) n"
proof (induction hole arbitrary: xs rule: less_induct)
  case (less hole)
  let ?p = "(hole - 1) div 2"
  show ?case
  proof (cases "0 < hole \<and> cmp (xs ! ?p) v")
    case True
    then have "hole_upto key (xs[hole := xs ! ?p]) ?p v n"
      using less.prems by (intro hole_upto_step) (auto simp: cmp)
    moreover from True have "?p < hole" by auto
    ultimately have "heap_upto key (push_heap_impl cmp (xs[hole := xs ! ?p]) ?p 0 v) n"
      by (rule less.IH [rotated])
    with True show ?thesis
      by (subst push_heap_impl.simps) (simp add: Let_def)
  next
    case False
    then have r: "push_heap_impl cmp xs hole 0 v = xs[hole := v]"
      by (subst push_heap_impl.simps) (auto simp: Let_def)
    have "key (xs[hole := v] ! ((i - 1) div 2)) \<le> key (xs[hole := v] ! i)" if i: "0 < i" "i < n" for i
    proof (cases "i = hole")
      case True
      with False i have "key (xs ! ?p) \<le> key v"
        by (simp add: cmp)
      moreover from True i have "?p < hole" by auto
      ultimately show ?thesis
        using True less.prems by (simp add: hole_upto_def)
    next
      case False
      with less.prems i show ?thesis
        by (simp add: hole_upto_def)
    qed
    then show ?thesis
      by (simp add: r heap_upto_def)
  qed
qed

text \<open>A hole without children: the value can travel up from it.\<close>

lemma hole_upto_leaf:
  assumes "\<And>i. 0 < i \<Longrightarrow> i < n \<Longrightarrow> i \<noteq> hole \<Longrightarrow> key (xs ! ((i - 1) div 2)) \<le> key (xs ! i)"
    and "hole < n" and "n \<le> length xs" and "n \<le> 2 * hole + 1"
  shows "hole_upto key xs hole v n"
proof -
  have "key (xs[hole := v] ! ((i - 1) div 2)) \<le> key (xs[hole := v] ! i)"
    if i: "0 < i" "i < n" "i \<noteq> hole" for i
  proof -
    from i assms(4) have "(i - 1) div 2 \<noteq> hole" by auto
    with i assms(1) [of i] show ?thesis
      by simp
  qed
  moreover have "(i - 1) div 2 \<noteq> hole" if "0 < i" "i < n" for i
    using that assms(4) by auto
  ultimately show ?thesis
    using assms(2,3) unfolding hole_upto_def by blast
qed

text \<open>Moving the lesser child up into its parent keeps the heap order.\<close>

lemma heap_upto_child_up:
  assumes h: "heap_upto key xs n" and c: "0 < c" "c < n" "n \<le> length xs"
    and least: "\<And>i. 0 < i \<Longrightarrow> i < n \<Longrightarrow> (i - 1) div 2 = (c - 1) div 2 \<Longrightarrow> key (xs ! c) \<le> key (xs ! i)"
  shows "heap_upto key (xs[(c - 1) div 2 := xs ! c]) n"
proof -
  let ?p = "(c - 1) div 2"
  from c have pc: "?p < c" by auto
  have "key (xs[?p := xs ! c] ! ((i - 1) div 2)) \<le> key (xs[?p := xs ! c] ! i)"
    if i: "0 < i" "i < n" for i
  proof -
    from i c have il: "i < length xs" "(i - 1) div 2 < i" by auto
    from h i have o: "key (xs ! ((i - 1) div 2)) \<le> key (xs ! i)"
      by (simp add: heap_upto_def)
    show ?thesis
    proof (cases "i = ?p")
      case True
      from h c have "key (xs ! ?p) \<le> key (xs ! c)"
        by (simp add: heap_upto_def)
      with o True il pc c show ?thesis by simp
    next
      case False
      show ?thesis
      proof (cases "(i - 1) div 2 = ?p")
        case True
        with least [of i] i False pc c il show ?thesis by simp
      next
        case False
        with \<open>i \<noteq> ?p\<close> o show ?thesis by simp
      qed
    qed
  qed
  then show ?thesis
    by (simp add: heap_upto_def)
qed

lemma heap_adjust_heap_loop:
  assumes "\<forall>a b. cmp a b \<longleftrightarrow> key b < key a"
    and "secondChild = holeIndex" and "holeIndex < len" and "len \<le> length first"
    and "heap_upto key first len"
    and "adjust_heap_loop cmp first holeIndex len secondChild = (first', holeIndex', secondChild')"
  shows "heap_upto key first' len"
  using assms
proof (induction cmp first holeIndex len secondChild arbitrary: first' holeIndex' secondChild'
    rule: adjust_heap_loop.induct)
  case (1 cmp first holeIndex len secondChild)
  note eq = \<open>secondChild = holeIndex\<close>
  show ?case
  proof (cases "secondChild < (len - 1) div 2")
    case True
    define sc where "sc = 2 * (secondChild + 1)"
    define sc' where "sc' = (if cmp (first ! sc) (first ! (sc - 1)) then sc - 1 else sc)"
    from True eq have b: "sc < len" "sc' < len" "0 < sc'" "(sc' - 1) div 2 = holeIndex"
      by (auto simp: sc_def sc'_def)
    have "adjust_heap_loop cmp first holeIndex len secondChild
        = adjust_heap_loop cmp (first[holeIndex := first ! sc']) sc' len sc'"
      using True by (subst adjust_heap_loop.simps) (simp add: Let_def sc_def sc'_def)
    with "1.prems"(6)
    have l: "adjust_heap_loop cmp (first[holeIndex := first ! sc']) sc' len sc' = (first', holeIndex', secondChild')"
      by simp
    have least: "key (first ! sc') \<le> key (first ! i)" if "0 < i" "i < len" "(i - 1) div 2 = (sc' - 1) div 2" for i
    proof -
      from that(3) b(4) eq have "(i - 1) div 2 = secondChild"
        by simp
      with that(1) have "i = sc \<or> i = sc - 1"
        unfolding sc_def by presburger
      then show ?thesis
        using "1.prems"(1) by (auto simp: sc'_def)
    qed
    from heap_upto_child_up [OF "1.prems"(5) b(3,2) "1.prems"(4) least]
    have "heap_upto key (first[holeIndex := first ! sc']) len"
      unfolding b(4) .
    with "1.prems" b show ?thesis
      by (intro "1.IH" [OF True sc_def sc'_def _ refl _ _ _ l]) auto
  next
    case False
    with "1.prems" show ?thesis
      by (subst (asm) adjust_heap_loop.simps) auto
  qed
qed

lemma heap_adjust_heap:
  assumes cmp: "\<And>a b. cmp a b \<longleftrightarrow> key b < key a"
    and h: "heap_upto key first len" and len: "0 < len" "len \<le> length first"
  shows "heap_upto key (adjust_heap cmp first 0 len v) len"
proof -
  obtain f h s where l: "adjust_heap_loop cmp first 0 len 0 = (f, h, s)"
    by (cases "adjust_heap_loop cmp first 0 len 0") auto
  from adjust_heap_loop_keeps [OF refl len l]
  have hs: "h < len" "s = h" "\<not> h < (len - 1) div 2"
    by auto
  have lf: "length f = length first"
    using length_adjust_heap_loop [of cmp first 0 len 0] l by simp
  from cmp have "\<forall>a b. cmp a b \<longleftrightarrow> key b < key a"
    by blast
  from heap_adjust_heap_loop [OF this refl len h l]
  have hf: "heap_upto key f len" .
  show ?thesis
  proof (cases "len mod 2 = 0 \<and> 2 \<le> len \<and> s = (len - 2) div 2")
    case True
    define hole where "hole = 2 * (s + 1) - 1"
    from True have last: "hole = len - 1" "len - 1 < len" "0 < len - 1" "(len - 1 - 1) div 2 = h"
      unfolding hole_def hs(2) [symmetric] by presburger+
    from True l have "adjust_heap cmp first 0 len v
        = push_heap_impl cmp (f[h := f ! hole]) hole 0 v"
      by (simp add: adjust_heap_def Let_def hole_def)
    then have a: "adjust_heap cmp first 0 len v
        = push_heap_impl cmp (f[h := f ! (len - 1)]) (len - 1) 0 v"
      by (simp add: last)
    have least: "key (f ! (len - 1)) \<le> key (f ! i)"
      if "0 < i" "i < len" "(i - 1) div 2 = (len - 1 - 1) div 2" for i
    proof -
      from that True have "i = len - 1" by presburger
      then show ?thesis by simp
    qed
    from heap_upto_child_up [OF hf last(3,2) _ least] len lf
    have "heap_upto key (f[h := f ! (len - 1)]) len"
      unfolding last(4) by simp
    then have "hole_upto key (f[h := f ! (len - 1)]) (len - 1) v len"
      using len lf True by (intro hole_upto_leaf) (auto simp: heap_upto_def)
    then show ?thesis
      unfolding a using cmp by (rule heap_push_heap_impl [rotated])
  next
    case False
    with l have a: "adjust_heap cmp first 0 len v = push_heap_impl cmp f h 0 v"
      by (auto simp: adjust_heap_def Let_def)
    from False hs len have "len \<le> 2 * h + 1"
      by presburger
    with hf hs len lf have "hole_upto key f h v len"
      by (intro hole_upto_leaf) (auto simp: heap_upto_def)
    then show ?thesis
      unfolding a using cmp by (rule heap_push_heap_impl [rotated])
  qed
qed

lemma heap_pq_push:
  assumes cmp: "\<And>a b. cmp a b \<longleftrightarrow> key b < key a"
    and h: "heap_upto key c (length c)"
  shows "heap_upto key (pq_push cmp c x) (length (pq_push cmp c x))"
proof -
  have "key ((c @ [x]) ! ((i - 1) div 2)) \<le> key ((c @ [x]) ! i)"
    if "0 < i" "i < length c + 1" "i \<noteq> length c" for i
  proof -
    from that have "i < length c" "(i - 1) div 2 < length c" by auto
    with h that show ?thesis
      by (simp add: heap_upto_def nth_append)
  qed
  then have "hole_upto key (c @ [x]) (length c) x (length c + 1)"
    by (intro hole_upto_leaf) auto
  with cmp have "heap_upto key (push_heap_impl cmp (c @ [x]) (length c) 0 x) (length c + 1)"
    by (rule heap_push_heap_impl)
  then show ?thesis
    by (simp add: pq_push_def push_heap_def)
qed

lemma heap_pq_pop:
  assumes cmp: "\<And>a b. cmp a b \<longleftrightarrow> key b < key a"
    and h: "heap_upto key c (length c)"
  shows "heap_upto key (pq_pop cmp c) (length (pq_pop cmp c))"
proof (cases "length c > 1")
  case True
  let ?last = "length c - 1"
  let ?r = "adjust_heap cmp (c[?last := c ! 0]) 0 ?last (c ! ?last)"
  from True have p: "pop_heap cmp c = ?r"
    by (simp add: pop_heap_def Let_def)
  from h have "heap_upto key (c[?last := c ! 0]) ?last"
    by (auto simp: heap_upto_def)
  with cmp True have "heap_upto key ?r ?last"
    by (intro heap_adjust_heap) auto
  then have "heap_upto key (butlast ?r) ?last"
    by (auto simp: heap_upto_def nth_butlast)
  then show ?thesis
    by (simp add: pq_pop_def p)
next
  case False
  then show ?thesis
    by (simp add: heap_upto_def)
qed

lemma heap_root_least:
  assumes "heap_upto key xs n" and "i < n"
  shows "key (xs ! 0) \<le> key (xs ! i)"
  using assms(2)
proof (induction i rule: less_induct)
  case (less i)
  show ?case
  proof (cases "i = 0")
    case True
    then show ?thesis by simp
  next
    case False
    then have "(i - 1) div 2 < i" by auto
    with less have "key (xs ! 0) \<le> key (xs ! ((i - 1) div 2))"
      by simp
    also from assms(1) False less.prems have "\<dots> \<le> key (xs ! i)"
      by (simp add: heap_upto_def)
    finally show ?thesis .
  qed
qed

subsection \<open>Emptying a queue\<close>

lemma mset_drain: "mset (drain cmp c) = mset c"
proof (induction cmp c rule: drain.induct)
  case (1 cmp c)
  show ?case
  proof (cases "c = []")
    case True
    then show ?thesis
      by (subst drain.simps) simp
  next
    case False
    then have "pq_top c \<in># mset c"
      by (simp add: pq_top_def)
    with False "1.IH" show ?thesis
      by (subst drain.simps) (simp add: mset_pq_pop)
  qed
qed

lemma sorted_drain:
  assumes cmp: "\<And>a b. cmp a b \<longleftrightarrow> key b < key a"
  shows "heap_upto key c (length c) \<Longrightarrow> sorted (map key (drain cmp c))"
proof (induction "length c" arbitrary: c)
  case 0
  then show ?case
    by (subst drain.simps) simp
next
  case (Suc n)
  then have ne: "c \<noteq> []" by auto
  from Suc.hyps(2) have "n = length (pq_pop cmp c)"
    by simp
  moreover from cmp Suc.prems have "heap_upto key (pq_pop cmp c) (length (pq_pop cmp c))"
    by (rule heap_pq_pop)
  ultimately have s: "sorted (map key (drain cmp (pq_pop cmp c)))"
    by (rule Suc.hyps(1))
  have "key (pq_top c) \<le> key y" if "y \<in> set (drain cmp (pq_pop cmp c))" for y
  proof -
    have "set (drain cmp (pq_pop cmp c)) = set (pq_pop cmp c)"
      by (rule mset_eq_setD) (rule mset_drain)
    with that have "y \<in># mset (pq_pop cmp c)"
      by simp
    with ne have "y \<in># mset c - {#pq_top c#}"
      by (simp add: mset_pq_pop)
    then have "y \<in># mset c"
      by (rule in_diffD)
    then obtain i where "i < length c" "y = c ! i"
      by (auto simp: in_set_conv_nth)
    with heap_root_least [OF Suc.prems, of i] show ?thesis
      by (simp add: pq_top_def)
  qed
  with s ne show ?case
    by (subst drain.simps) simp
qed

lemma heap_pushes:
  assumes cmp: "\<And>a b. cmp a b \<longleftrightarrow> key b < key a"
  shows "heap_upto key c (length c) \<Longrightarrow>
         heap_upto key (foldl (pq_push cmp) c xs) (length (foldl (pq_push cmp) c xs))"
proof (induction xs arbitrary: c)
  case Nil
  then show ?case by simp
next
  case (Cons x xs)
  from cmp Cons.prems have "heap_upto key (pq_push cmp c x) (length (pq_push cmp c x))"
    by (rule heap_pq_push)
  then show ?case
    using Cons.IH by simp
qed

lemma mset_pushes: "mset (foldl (pq_push cmp) c xs) = mset c + mset xs"
  by (induction xs arbitrary: c) (simp_all add: mset_pq_push)

section \<open>SnackCart: purchases\<close>

lemma buy_unknown:
  "map_of (stock c) nm = None \<Longrightarrow> buy c nm qty = (Not_enough_stock_or_invalid_snack, c)"
  by (simp add: buy_def)

lemma buy_short:
  "map_of (stock c) nm = Some s \<Longrightarrow> quantity s <s qty \<Longrightarrow>
   buy c nm qty = (Not_enough_stock_or_invalid_snack, c)"
  by (simp add: buy_def signed.not_le)

lemma buy_enough:
  "map_of (stock c) nm = Some s \<Longrightarrow> qty <=s quantity s \<Longrightarrow>
   buy c nm qty =
     (Purchased,
      c\<lparr>stock := AList.update nm (s\<lparr>quantity := quantity s - qty\<rparr>) (stock c),
        salesHistory := salesHistory c @ [(nm, qty * price s)]\<rparr>)"
  by (simp add: buy_def)

lemma keys_update_known:
  "map_of al k = Some v \<Longrightarrow> map fst (AList.update k v' al) = map fst al"
  by (simp add: update_keys map_of_eq_Some_iff weak_map_of_SomeI domI dom_map_of_conv_image_fst [symmetric])

text \<open>
  C2, as stated, fails where the product of the quantity and the price does not fit
  32 bits. From the seed stock the purchase of -200000000 Kurkure is accepted and
  leaves 200000010 of them; the purchase of 200000000 Kurkure that follows asks for a
  positive quantity within the stock and is accepted, and the record it appends has
  the profit -1294967296, where 200000000 times the price 15 is 3000000000.
\<close>

theorem positive_purchase_profit_counterexample:
  "fst (buy seed_cart ''Kurkure'' (- 200000000)) = Purchased
   \<and> map_of (stock (snd (buy seed_cart ''Kurkure'' (- 200000000)))) ''Kurkure''
       = Some \<lparr>name = ''Kurkure'', quantity = 200000010, price = 15, expiry = ''2025-09-01''\<rparr>
   \<and> (0 :: int32) <s 200000000
   \<and> (200000000 :: int32) <=s 200000010
   \<and> fst (buy (snd (buy seed_cart ''Kurkure'' (- 200000000))) ''Kurkure'' 200000000) = Purchased
   \<and> map (\<lambda>r. (fst r, sint (snd r)))
        (salesHistory (snd (buy (snd (buy seed_cart ''Kurkure'' (- 200000000))) ''Kurkure'' 200000000)))
       = [(''Kurkure'', 1294967296), (''Kurkure'', - 1294967296)]
   \<and> sint (200000000 :: int32) * sint (15 :: int32) = 3000000000"
  by (simp add: buy_def seed_cart_def word_sless_alt word_sle_eq)

text \<open>
  C2, amended. A purchase of a positive quantity is refused exactly when the name is
  unknown or the quantity asked exceeds the quantity in stock, and then the cart is
  unchanged. Otherwise the entry of the item gets the quantity less the quantity asked
  (an exact difference, without wrap-around), no other entry and no key changes, and
  one record is appended to the history, with the profit \<^verbatim>\<open>qty * price\<close> as
  32-bit multiplication computes it: the mathematical product if that fits 32 bits.
\<close>

theorem purchase_positive:
  assumes "0 <s qty"
  shows "(fst (buy c nm qty) = Not_enough_stock_or_invalid_snack \<longleftrightarrow>
            map_of (stock c) nm = None
            \<or> (\<exists>s. map_of (stock c) nm = Some s \<and> quantity s <s qty))
       \<and> (fst (buy c nm qty) = Not_enough_stock_or_invalid_snack \<longrightarrow> snd (buy c nm qty) = c)
       \<and> (\<forall>s. map_of (stock c) nm = Some s \<and> qty <=s quantity s \<longrightarrow>
              fst (buy c nm qty) = Purchased
            \<and> map_of (stock (snd (buy c nm qty))) =
                (map_of (stock c))(nm \<mapsto> s\<lparr>quantity := quantity s - qty\<rparr>)
            \<and> map fst (stock (snd (buy c nm qty))) = map fst (stock c)
            \<and> sint (quantity s - qty) = sint (quantity s) - sint qty
            \<and> salesHistory (snd (buy c nm qty)) = salesHistory c @ [(nm, qty * price s)]
            \<and> (- 2147483648 \<le> sint qty * sint (price s) \<and> sint qty * sint (price s) \<le> 2147483647
                 \<longrightarrow> sint (qty * price s) = sint qty * sint (price s)))"
proof (intro conjI allI impI)
  show "fst (buy c nm qty) = Not_enough_stock_or_invalid_snack \<longleftrightarrow>
          map_of (stock c) nm = None \<or> (\<exists>s. map_of (stock c) nm = Some s \<and> quantity s <s qty)"
    by (cases "map_of (stock c) nm") (auto simp: buy_def Let_def signed.not_le)
next
  assume "fst (buy c nm qty) = Not_enough_stock_or_invalid_snack"
  then show "snd (buy c nm qty) = c"
    by (cases "map_of (stock c) nm") (auto simp: buy_def Let_def split: if_splits)
next
  fix s assume h: "map_of (stock c) nm = Some s \<and> qty <=s quantity s"
  then have b: "buy c nm qty =
     (Purchased,
      c\<lparr>stock := AList.update nm (s\<lparr>quantity := quantity s - qty\<rparr>) (stock c),
        salesHistory := salesHistory c @ [(nm, qty * price s)]\<rparr>)"
    by (simp add: buy_enough)
  show "fst (buy c nm qty) = Purchased"
    by (simp add: b)
  show "map_of (stock (snd (buy c nm qty))) =
          (map_of (stock c))(nm \<mapsto> s\<lparr>quantity := quantity s - qty\<rparr>)"
    by (simp add: b update_conv')
  show "map fst (stock (snd (buy c nm qty))) = map fst (stock c)"
    using h by (simp add: b keys_update_known)
  show "salesHistory (snd (buy c nm qty)) = salesHistory c @ [(nm, qty * price s)]"
    by (simp add: b)
  from assms h have "0 < sint qty" "sint qty \<le> sint (quantity s)"
    by (simp_all add: word_sless_alt word_sle_eq)
  with sint32_range [of "quantity s"]
  show "sint (quantity s - qty) = sint (quantity s) - sint qty"
    by (intro sint32_diff) auto
next
  fix s
  assume "- 2147483648 \<le> sint qty * sint (price s) \<and> sint qty * sint (price s) \<le> 2147483647"
  then show "sint (qty * price s) = sint qty * sint (price s)"
    by (simp add: sint32_mult)
qed

theorem purchase_positive_witness:
  "(0 :: int32) <s 3
   \<and> fst (buy seed_cart ''Kurkure'' 3) = Purchased
   \<and> map_of (stock (snd (buy seed_cart ''Kurkure'' 3))) ''Kurkure''
       = Some \<lparr>name = ''Kurkure'', quantity = 7, price = 15, expiry = ''2025-09-01''\<rparr>
   \<and> salesHistory (snd (buy seed_cart ''Kurkure'' 3)) = [(''Kurkure'', 45)]
   \<and> (0 :: int32) <s 10
   \<and> buy seed_cart ''Lays'' 10 = (Not_enough_stock_or_invalid_snack, seed_cart)"
proof -
  let ?k = "\<lparr>name = ''Kurkure'', quantity = 10, price = 15, expiry = ''2025-09-01''\<rparr>"
  let ?l = "\<lparr>name = ''Lays'', quantity = 5, price = 20, expiry = ''2025-08-10''\<rparr>"
  have p3: "(0 :: int32) <s 3" and p10: "(0 :: int32) <s 10"
    by (simp_all add: word_sless_alt)
  have k: "map_of (stock seed_cart) ''Kurkure'' = Some ?k \<and> (3 :: int32) <=s quantity ?k"
    by (simp add: seed_cart_def word_sle_eq)
  note pk = purchase_positive [OF p3, of seed_cart "''Kurkure''"]
  from pk k have k1: "fst (buy seed_cart ''Kurkure'' 3) = Purchased"
    by blast
  from pk k have "map_of (stock (snd (buy seed_cart ''Kurkure'' 3))) =
      (map_of (stock seed_cart))(''Kurkure'' \<mapsto> ?k\<lparr>quantity := quantity ?k - 3\<rparr>)"
    by blast
  then have k2: "map_of (stock (snd (buy seed_cart ''Kurkure'' 3))) ''Kurkure''
       = Some \<lparr>name = ''Kurkure'', quantity = 7, price = 15, expiry = ''2025-09-01''\<rparr>"
    by simp
  from pk k have "salesHistory (snd (buy seed_cart ''Kurkure'' 3)) =
      salesHistory seed_cart @ [(''Kurkure'', 3 * price ?k)]"
    by blast
  then have k3: "salesHistory (snd (buy seed_cart ''Kurkure'' 3)) = [(''Kurkure'', 45)]"
    by (simp add: seed_cart_def)
  have l: "map_of (stock seed_cart) ''Lays'' = Some ?l \<and> quantity ?l <s 10"
    by (simp add: seed_cart_def word_sless_alt)
  note pl = purchase_positive [OF p10, of seed_cart "''Lays''"]
  from pl l have l1: "fst (buy seed_cart ''Lays'' 10) = Not_enough_stock_or_invalid_snack"
    by blast
  with pl have "snd (buy seed_cart ''Lays'' 10) = seed_cart"
    by blast
  with l1 have l2: "buy seed_cart ''Lays'' 10 = (Not_enough_stock_or_invalid_snack, seed_cart)"
    by (simp add: prod_eq_iff)
  from p3 k1 k2 k3 p10 l2 show ?thesis by blast
qed

text \<open>
  C10, as stated, fails where 32-bit arithmetic wraps around: from the seed stock the
  purchase of -200000000 Kurkure is accepted and records the profit
  \<open>-200000000 * 15\<close>, which in 32 bits is the positive number 1294967296.
\<close>

theorem negative_purchase_profit_counterexample:
  "(- 200000000 :: int32) <s 0
   \<and> fst (buy seed_cart ''Kurkure'' (- 200000000)) = Purchased
   \<and> salesHistory (snd (buy seed_cart ''Kurkure'' (- 200000000))) = [(''Kurkure'', 1294967296)]
   \<and> (0 :: int32) <s 1294967296"
  by (simp add: buy_def seed_cart_def word_sless_alt word_sle_eq)

text \<open>
  C10, amended. A purchase of a quantity that is zero or negative is accepted for
  every known item whose quantity is not below it. The entry of the item gets
  \<^verbatim>\<open>quantity - qty\<close> and the record appended has the profit \<^verbatim>\<open>qty * price\<close>, both
  in 32-bit arithmetic. The new quantity is the exact difference, so not below the old
  one and above it for a negative \<open>qty\<close>, as long as that difference is at most
  2147483647; the profit is the exact product, so negative for a negative \<open>qty\<close> and a
  positive price, as long as that product fits 32 bits.
\<close>

theorem purchase_nonpositive:
  assumes "qty <=s 0" and "map_of (stock c) nm = Some s" and "qty <=s quantity s"
  shows "fst (buy c nm qty) = Purchased
       \<and> map_of (stock (snd (buy c nm qty))) =
           (map_of (stock c))(nm \<mapsto> s\<lparr>quantity := quantity s - qty\<rparr>)
       \<and> salesHistory (snd (buy c nm qty)) = salesHistory c @ [(nm, qty * price s)]
       \<and> (sint (quantity s) - sint qty \<le> 2147483647 \<longrightarrow>
            sint (quantity s - qty) = sint (quantity s) - sint qty
            \<and> quantity s <=s quantity s - qty
            \<and> (qty <s 0 \<longrightarrow> quantity s <s quantity s - qty))
       \<and> (- 2147483648 \<le> sint qty * sint (price s) \<and> sint qty * sint (price s) \<le> 2147483647 \<longrightarrow>
            sint (qty * price s) = sint qty * sint (price s)
            \<and> (qty <s 0 \<and> 0 <s price s \<longrightarrow> qty * price s <s 0))"
proof (intro conjI impI)
  from assms have b: "buy c nm qty =
     (Purchased,
      c\<lparr>stock := AList.update nm (s\<lparr>quantity := quantity s - qty\<rparr>) (stock c),
        salesHistory := salesHistory c @ [(nm, qty * price s)]\<rparr>)"
    by (simp add: buy_enough)
  show "fst (buy c nm qty) = Purchased"
    by (simp add: b)
  show "map_of (stock (snd (buy c nm qty))) =
          (map_of (stock c))(nm \<mapsto> s\<lparr>quantity := quantity s - qty\<rparr>)"
    by (simp add: b update_conv')
  show "salesHistory (snd (buy c nm qty)) = salesHistory c @ [(nm, qty * price s)]"
    by (simp add: b)
next
  assume fits: "sint (quantity s) - sint qty \<le> 2147483647"
  from assms have q: "sint qty \<le> 0"
    by (simp add: word_sle_eq)
  with fits sint32_range [of "quantity s"]
  show d: "sint (quantity s - qty) = sint (quantity s) - sint qty"
    by (intro sint32_diff) auto
  from d q show "quantity s <=s quantity s - qty"
    by (simp add: word_sle_eq)
  assume "qty <s 0"
  with d show "quantity s <s quantity s - qty"
    by (simp add: word_sless_alt)
next
  assume fits: "- 2147483648 \<le> sint qty * sint (price s) \<and> sint qty * sint (price s) \<le> 2147483647"
  then show m: "sint (qty * price s) = sint qty * sint (price s)"
    by (simp add: sint32_mult)
  assume "qty <s 0 \<and> 0 <s price s"
  then have "sint qty < 0" "0 < sint (price s)"
    by (simp_all add: word_sless_alt)
  then have "sint qty * sint (price s) < 0"
    by (simp add: mult_neg_pos)
  with m show "qty * price s <s 0"
    by (simp add: word_sless_alt)
qed

theorem purchase_nonpositive_witness:
  "(- 2 :: int32) <=s 0
   \<and> fst (buy seed_cart ''Lays'' (- 2)) = Purchased
   \<and> map_of (stock (snd (buy seed_cart ''Lays'' (- 2)))) ''Lays''
       = Some \<lparr>name = ''Lays'', quantity = 7, price = 20, expiry = ''2025-08-10''\<rparr>
   \<and> salesHistory (snd (buy seed_cart ''Lays'' (- 2))) = [(''Lays'', - 40)]
   \<and> (5 :: int32) <s 7 \<and> (- 40 :: int32) <s 0"
proof -
  let ?l = "\<lparr>name = ''Lays'', quantity = 5, price = 20, expiry = ''2025-08-10''\<rparr>"
  have a: "(- 2 :: int32) <=s 0" "map_of (stock seed_cart) ''Lays'' = Some ?l" "(- 2 :: int32) <=s quantity ?l"
    by (simp_all add: seed_cart_def word_sle_eq)
  have n: "(- 2 :: int32) <s 0 \<and> 0 <s price ?l"
    by (simp add: word_sless_alt)
  have f1: "sint (quantity ?l) - sint (- 2 :: int32) \<le> 2147483647"
    by simp
  have f2: "- 2147483648 \<le> sint (- 2 :: int32) * sint (price ?l) \<and> sint (- 2 :: int32) * sint (price ?l) \<le> 2147483647"
    by simp
  note p = purchase_nonpositive [OF a]
  from p have r1: "fst (buy seed_cart ''Lays'' (- 2)) = Purchased"
    by blast
  from p have "map_of (stock (snd (buy seed_cart ''Lays'' (- 2)))) =
      (map_of (stock seed_cart))(''Lays'' \<mapsto> ?l\<lparr>quantity := quantity ?l - (- 2)\<rparr>)"
    by blast
  then have r2: "map_of (stock (snd (buy seed_cart ''Lays'' (- 2)))) ''Lays''
       = Some \<lparr>name = ''Lays'', quantity = 7, price = 20, expiry = ''2025-08-10''\<rparr>"
    by simp
  from p have "salesHistory (snd (buy seed_cart ''Lays'' (- 2))) = salesHistory seed_cart @ [(''Lays'', - 2 * price ?l)]"
    by blast
  then have r3: "salesHistory (snd (buy seed_cart ''Lays'' (- 2))) = [(''Lays'', - 40)]"
    by (simp add: seed_cart_def)
  from p f1 n have "quantity ?l <s quantity ?l - (- 2)"
    by blast
  then have r4: "(5 :: int32) <s 7"
    by simp
  from p f2 n have "- 2 * price ?l <s 0"
    by blast
  then have r5: "(- 40 :: int32) <s 0"
    by simp
  from a(1) r1 r2 r3 r4 r5 show ?thesis by blast
qed

section \<open>SnackCart: the stock by expiry\<close>

text \<open>
  C6. For every stock, in whatever order the map is iterated, the stock view lists
  exactly the snacks of the stock, in ascending lexicographic order of their expiry
  strings; for the seed stock: Lays, Kurkure, Oreo.
\<close>

theorem stock_by_expiry:
  "sorted (map expiry (view_stock c))
   \<and> mset (view_stock c) = mset (map snd (stock c))
   \<and> map name (view_stock seed_cart) = [''Lays'', ''Kurkure'', ''Oreo'']"
proof (intro conjI)
  have k: "ExpiryCompare a b \<longleftrightarrow> expiry b < expiry a" for a b
    by (simp add: ExpiryCompare_def)
  have "heap_upto expiry ([] :: Snack list) (length ([] :: Snack list))"
    by (simp add: heap_upto_def)
  with k have "heap_upto expiry (foldl (pq_push ExpiryCompare) [] (map snd (stock c)))
          (length (foldl (pq_push ExpiryCompare) [] (map snd (stock c))))"
    by (rule heap_pushes)
  with k show "sorted (map expiry (view_stock c))"
    unfolding view_stock_def by (rule sorted_drain)
  show "mset (view_stock c) = mset (map snd (stock c))"
    by (simp add: view_stock_def mset_drain mset_pushes)
  show "map name (view_stock seed_cart) = [''Lays'', ''Kurkure'', ''Oreo'']"
    by (simp add: view_stock_def seed_cart_def pq_push_def push_heap_def push_heap_impl.simps
      drain.simps pq_pop_def pq_top_def pop_heap_def adjust_heap_def adjust_heap_loop.simps
      ExpiryCompare_def Let_def less_char_def)
qed

section \<open>SnackCart: the profit view\<close>

lemma insertion_sort_profit_contract: "std_sort_contract insertion_sort_profit profit_greater"
proof -
  have "sorted_wrt (\<lambda>a b. \<not> profit_greater b a) (insertion_sort_profit profit_greater xs)" for xs
  proof -
    have "sorted (map (\<lambda>p. sint (snd p)) (sort_key (\<lambda>p. sint (snd p)) xs))"
      by simp
    then have "sorted_wrt (\<lambda>a b. sint (snd a) \<le> sint (snd b)) (sort_key (\<lambda>p. sint (snd p)) xs)"
      by (simp add: sorted_map)
    then have "sorted_wrt (\<lambda>a b. sint (snd b) \<le> sint (snd a)) (rev (sort_key (\<lambda>p. sint (snd p)) xs))"
      by (simp add: sorted_wrt_rev)
    then show ?thesis
      by (simp add: insertion_sort_profit_def profit_greater_def word_sless_alt not_less)
  qed
  then show ?thesis
    by (simp add: std_sort_contract_def insertion_sort_profit_def)
qed

text \<open>
  C7, as stated, fails: after the two purchases of one Lays and two Oreo the history is
  (Lays, 20), (Oreo, 50), and no sort that meets the contract of \<^verbatim>\<open>std::sort\<close> leaves
  the stored history in that order.
\<close>

theorem view_profit_reorders_counterexample:
  "\<not> (\<exists>std_sort. std_sort_contract std_sort profit_greater
        \<and> salesHistory (snd (view_profit std_sort (snd (buy (snd (buy seed_cart ''Lays'' 1)) ''Oreo'' 2))))
          = salesHistory (snd (buy (snd (buy seed_cart ''Lays'' 1)) ''Oreo'' 2)))"
proof
  let ?c = "snd (buy (snd (buy seed_cart ''Lays'' 1)) ''Oreo'' 2)"
  assume "\<exists>std_sort. std_sort_contract std_sort profit_greater
        \<and> salesHistory (snd (view_profit std_sort ?c)) = salesHistory ?c"
  then obtain std_sort where c: "std_sort_contract std_sort profit_greater"
    and e: "salesHistory (snd (view_profit std_sort ?c)) = salesHistory ?c"
    by blast
  have h: "salesHistory ?c = [(''Lays'', 20), (''Oreo'', 50)]"
    by (simp add: buy_def seed_cart_def word_sle_eq)
  from e have "std_sort profit_greater (salesHistory ?c) = salesHistory ?c"
    by (simp add: view_profit_def Let_def)
  with c have "sorted_wrt (\<lambda>a b. \<not> profit_greater b a) (salesHistory ?c)"
    unfolding std_sort_contract_def by metis
  then show False
    by (simp add: h profit_greater_def word_sless_alt)
qed

text \<open>
  C7, amended. With any \<^verbatim>\<open>std::sort\<close> that meets its contract, the profit view leaves
  the stock as it is and keeps every record of the history, none added, none removed and
  none altered; it does store the history in a new order, that of the list it prints:
  no record before one of greater profit.
\<close>

theorem view_profit_effect:
  assumes "std_sort_contract std_sort profit_greater"
  shows "stock (snd (view_profit std_sort c)) = stock c
       \<and> mset (salesHistory (snd (view_profit std_sort c))) = mset (salesHistory c)
       \<and> sorted_wrt (\<lambda>a b. sint (snd b) \<le> sint (snd a)) (salesHistory (snd (view_profit std_sort c)))
       \<and> fst (fst (view_profit std_sort c)) = salesHistory (snd (view_profit std_sort c))"
proof -
  from assms have m: "mset (std_sort profit_greater (salesHistory c)) = mset (salesHistory c)"
    and s: "sorted_wrt (\<lambda>a b. \<not> profit_greater b a) (std_sort profit_greater (salesHistory c))"
    by (simp_all add: std_sort_contract_def)
  have "(\<lambda>a b. \<not> profit_greater b a) = (\<lambda>a b. sint (snd b) \<le> sint (snd a))"
    by (simp add: profit_greater_def word_sless_alt not_less fun_eq_iff)
  with s have "sorted_wrt (\<lambda>a b. sint (snd b) \<le> sint (snd a)) (std_sort profit_greater (salesHistory c))"
    by simp
  with m show ?thesis
    by (simp add: view_profit_def Let_def)
qed

theorem view_profit_effect_witness:
  "std_sort_contract insertion_sort_profit profit_greater
   \<and> stock (snd (view_profit insertion_sort_profit (snd (buy (snd (buy seed_cart ''Lays'' 1)) ''Oreo'' 2))))
       = stock (snd (buy (snd (buy seed_cart ''Lays'' 1)) ''Oreo'' 2))
   \<and> mset (salesHistory (snd (view_profit insertion_sort_profit (snd (buy (snd (buy seed_cart ''Lays'' 1)) ''Oreo'' 2)))))
       = {#(''Lays'', 20), (''Oreo'', 50)#}"
proof -
  let ?c = "snd (buy (snd (buy seed_cart ''Lays'' 1)) ''Oreo'' 2)"
  have h: "salesHistory ?c = [(''Lays'', 20), (''Oreo'', 50)]"
    by (simp add: buy_def seed_cart_def word_sle_eq)
  note v = view_profit_effect [OF insertion_sort_profit_contract, of ?c]
  from v have "mset (salesHistory (snd (view_profit insertion_sort_profit ?c))) = mset (salesHistory ?c)"
    by blast
  with h have "mset (salesHistory (snd (view_profit insertion_sort_profit ?c))) = {#(''Lays'', 20), (''Oreo'', 50)#}"
    by simp
  with v insertion_sort_profit_contract show ?thesis
    by blast
qed

section \<open>RoomieMatcher: the assignment\<close>










section \<open>LaundryLoad: the booking\<close>

lemma clash_iff: "clash start en slots \<longleftrightarrow> (\<exists>s \<in> set slots. \<not> (en <=s fst s \<or> snd s <=s start))"
  by (induction slots) auto

lemma overlap_test_hours:
  assumes "start <s en" and "fst s <s snd s"
  shows "\<not> (en <=s fst s \<or> snd s <=s start) \<longleftrightarrow> hours (start, en) \<inter> hours s \<noteq> {}"
proof -
  have "hours (start, en) \<inter> hours s = {max (sint start) (sint (fst s)) ..< min (sint en) (sint (snd s))}"
    by (auto simp: hours_def)
  with assms show ?thesis
    by (auto simp: word_sle_eq word_sless_alt)
qed

text \<open>
  C3. A booking with \<open>start < end\<close> is refused exactly when some stored slot \<open>s\<close> passes
  the overlap test \<^verbatim>\<open>!(end <= s.first || start >= s.second)\<close>; when every stored slot
  is a proper interval this is exactly when the hours of the request meet the hours of
  a stored slot. A refused booking leaves the slots as they were; an accepted one
  appends the interval at the end, where it is found afterwards.
\<close>

theorem book_conflict_iff_overlap:
  assumes "start <s en"
  shows "(fst (LaundryLoad_run slots start en) = Clash_detected \<longleftrightarrow>
            (\<exists>s \<in> set slots. \<not> (en <=s fst s \<or> snd s <=s start)))
       \<and> ((\<forall>s \<in> set slots. fst s <s snd s) \<longrightarrow>
            (fst (LaundryLoad_run slots start en) = Clash_detected \<longleftrightarrow>
               (\<exists>s \<in> set slots. hours (start, en) \<inter> hours s \<noteq> {})))
       \<and> (fst (LaundryLoad_run slots start en) = Clash_detected \<longrightarrow>
            snd (LaundryLoad_run slots start en) = slots)
       \<and> (fst (LaundryLoad_run slots start en) = Slot_booked \<longrightarrow>
            snd (LaundryLoad_run slots start en) = slots @ [(start, en)]
            \<and> (start, en) \<in> set (snd (LaundryLoad_run slots start en)))"
proof -
  have "(\<forall>s \<in> set slots. fst s <s snd s) \<Longrightarrow>
        (\<exists>s \<in> set slots. \<not> (en <=s fst s \<or> snd s <=s start)) \<longleftrightarrow>
        (\<exists>s \<in> set slots. hours (start, en) \<inter> hours s \<noteq> {})"
    using overlap_test_hours [OF assms] by blast
  then show ?thesis
    by (auto simp: LaundryLoad_run_def clash_iff)
qed

theorem book_conflict_iff_overlap_witness:
  "(10 :: int32) <s 11
   \<and> fst (LaundryLoad_run seed_slots 10 11) = Clash_detected
   \<and> snd (LaundryLoad_run seed_slots 10 11) = seed_slots
   \<and> (\<exists>s \<in> set seed_slots. hours (10, 11) \<inter> hours s \<noteq> {})"
proof -
  have lt: "(10 :: int32) <s 11"
    by (simp add: word_sless_alt)
  have wf: "\<forall>s \<in> set seed_slots. fst s <s snd s"
    by (simp add: seed_slots_def word_sless_alt)
  have ex: "\<exists>s \<in> set seed_slots. \<not> ((11 :: int32) <=s fst s \<or> snd s <=s 10)"
    by (simp add: seed_slots_def word_sle_eq)
  note bk = book_conflict_iff_overlap [OF lt, of seed_slots]
  from bk ex have c: "fst (LaundryLoad_run seed_slots 10 11) = Clash_detected"
    by blast
  from bk c have u: "snd (LaundryLoad_run seed_slots 10 11) = seed_slots"
    by blast
  from bk wf c have h: "\<exists>s \<in> set seed_slots. hours (10, 11) \<inter> hours s \<noteq> {}"
    by blast
  from lt c u h show ?thesis by blast
qed

section \<open>HostelFixer: the order of the listing\<close>

lemma task_greater_key: "task_greater a b \<longleftrightarrow> sint (urgency b) < sint (urgency a)"
  by (simp add: task_greater_def word_sless_alt)

lemma tasks_after_pushes:
  "tasks_after inputs =
     foldl (pq_push task_greater) [] (map (\<lambda>(d, urg). \<lparr>desc = d, urgency = urg\<rparr>) inputs)"
proof -
  have "foldl (\<lambda>tasks (d, urg). snd (HostelFixer_tasks tasks d urg)) c inputs =
     foldl (pq_push task_greater) c (map (\<lambda>(d, urg). \<lparr>desc = d, urgency = urg\<rparr>) inputs)" for c
    by (induction inputs arbitrary: c) (auto simp: HostelFixer_tasks_def add_task_def Let_def)
  then show ?thesis
    by (simp add: tasks_after_def)
qed

text \<open>
  C1, as stated, fails on ties: of four tasks of one urgency, entered as a, b, c, d,
  the listing shows c before b.
\<close>

theorem tasks_ties_counterexample:
  "map desc (urgent_tasks (tasks_after [(''a'', 1), (''b'', 1), (''c'', 1), (''d'', 1)]))
     = [''a'', ''c'', ''b'', ''d'']"
  by (simp add: urgent_tasks_def tasks_after_pushes pq_push_def push_heap_def push_heap_impl.simps
      drain.simps pq_pop_def pq_top_def pop_heap_def adjust_heap_def adjust_heap_loop.simps
      task_greater_def word_sless_alt Let_def)

text \<open>
  C1, amended. After any sequence of insertions the listing holds exactly the tasks
  inserted, each as often as it was inserted, in ascending order of urgency; the
  urgencies 5, 1, 3 are listed as 1, 3, 5. (The order of tasks of equal urgency is the
  one the heap gives them.)
\<close>

theorem tasks_listed_by_urgency:
  "sorted (map (\<lambda>t. sint (urgency t)) (urgent_tasks (tasks_after inputs)))
   \<and> mset (urgent_tasks (tasks_after inputs))
       = mset (map (\<lambda>(d, urg). \<lparr>desc = d, urgency = urg\<rparr>) inputs)
   \<and> map urgency (urgent_tasks (tasks_after [(''x'', 5), (''y'', 1), (''z'', 3)])) = [1, 3, 5]"
proof (intro conjI)
  let ?ts = "map (\<lambda>(d, urg). \<lparr>desc = d, urgency = urg\<rparr>) inputs"
  have "heap_upto (\<lambda>t. sint (urgency t)) ([] :: Task list) (length ([] :: Task list))"
    by (simp add: heap_upto_def)
  with task_greater_key
  have "heap_upto (\<lambda>t. sint (urgency t)) (foldl (pq_push task_greater) [] ?ts)
          (length (foldl (pq_push task_greater) [] ?ts))"
    by (rule heap_pushes)
  with task_greater_key
  show "sorted (map (\<lambda>t. sint (urgency t)) (urgent_tasks (tasks_after inputs)))"
    unfolding urgent_tasks_def tasks_after_pushes by (rule sorted_drain)
  show "mset (urgent_tasks (tasks_after inputs)) = mset ?ts"
    by (simp add: urgent_tasks_def tasks_after_pushes mset_drain mset_pushes)
  show "map urgency (urgent_tasks (tasks_after [(''x'', 5), (''y'', 1), (''z'', 3)])) = [1, 3, 5]"
    by (simp add: urgent_tasks_def tasks_after_pushes pq_push_def push_heap_def push_heap_impl.simps
      drain.simps pq_pop_def pq_top_def pop_heap_def adjust_heap_def adjust_heap_loop.simps
      task_greater_def word_sless_alt Let_def)
qed

section \<open>HostelFixer: the shortest path computed\<close>

subsection \<open>One round of the loop\<close>

lemma init_dist_eq: "init_dist graph v = (if v \<in> fst ` set graph then 1000000000 else 0)"
proof -
  have "fold (\<lambda>kv dist. dist(fst kv := 1000000000)) graph d v
          = (if v \<in> fst ` set graph then 1000000000 else d v)" for d :: "string \<Rightarrow> int32"
    by (induction graph arbitrary: d) auto
  then show ?thesis
    by (simp add: init_dist_def)
qed

lemma edges_of_key:
  assumes "(v, w) \<in> set (edges_of graph u)"
  shows "u \<in> fst ` set graph"
proof (cases "map_of graph u")
  case None
  with assms show ?thesis
    by (simp add: edges_of_def)
next
  case (Some es)
  then have "(u, es) \<in> set graph"
    by (rule map_of_SomeD)
  then show ?thesis
    by (rule rev_image_eqI) simp
qed

lemma potential_update:
  assumes "v \<in> fst ` set graph" and "0 \<le> sint x" and "sint x < sint (dist v)"
  shows "potential graph (dist(v := x)) + 1 \<le> potential graph dist"
proof -
  let ?A = "fst ` set graph"
  have fin: "finite ?A" by simp
  have "potential graph (dist(v := x)) = nat (sint x) + (\<Sum>y \<in> ?A - {v}. nat (sint (dist y)))"
    unfolding potential_def using assms(1) fin by (subst sum.remove [of _ v]) auto
  moreover have "potential graph dist = nat (sint (dist v)) + (\<Sum>y \<in> ?A - {v}. nat (sint (dist y)))"
    unfolding potential_def using assms(1) fin by (subst sum.remove [of _ v]) auto
  moreover from assms(2,3) have "nat (sint x) + 1 \<le> nat (sint (dist v))"
    by simp
  ultimately show ?thesis by simp
qed

lemma relax_update:
  assumes ok: "weights_ok graph" and e: "(v, w) \<in> set (edges_of graph u)"
    and inv: "dist_inv graph src dist" and lt: "dist u + w <s dist v"
  shows "sint (dist u + w) = sint (dist u) + sint w"
    and "sint (dist u) + sint w < sint (dist v)"
    and "v \<noteq> u" and "v \<in> fst ` set graph"
    and "dist_inv graph src (dist(v := dist u + w))"
proof -
  from ok e have w: "0 \<le> sint w" "sint w \<le> 1147483647"
    by (auto simp: weights_ok_def)
  from inv have r: "\<And>x. 0 \<le> sint (dist x) \<and> sint (dist x) \<le> 1000000000"
    and nk: "\<And>x. x \<notin> fst ` set graph \<Longrightarrow> dist x = 0"
    and s0: "dist src = 0"
    and wk: "\<And>x. walk graph src (sint (dist x)) x \<or> dist x = init_dist graph x"
    by (auto simp: dist_inv_def)
  from w r [of u] show a: "sint (dist u + w) = sint (dist u) + sint w"
    by (intro sint32_add) auto
  with lt show l: "sint (dist u) + sint w < sint (dist v)"
    by (simp add: word_sless_alt)
  with w show vu: "v \<noteq> u" by auto
  from l w r [of u] have pos: "0 < sint (dist v)" by auto
  show vk: "v \<in> fst ` set graph"
  proof (rule ccontr)
    assume "v \<notin> fst ` set graph"
    then have "dist v = 0" by (rule nk)
    with pos show False by simp
  qed
  from pos s0 have vs: "v \<noteq> src" by auto
  have "walk graph src (sint (dist u)) u"
  proof (rule disjE [OF wk [of u]])
    assume "dist u = init_dist graph u"
    with edges_of_key [OF e] have "sint (dist u) = 1000000000"
      by (simp add: init_dist_eq)
    with l w r [of v] show ?thesis by auto
  qed
  then have "walk graph src (sint (dist u) + sint w) v"
    using e by (rule walk_step)
  with a have nw: "walk graph src (sint ((dist(v := dist u + w)) v)) v"
    by simp
  show "dist_inv graph src (dist(v := dist u + w))"
    unfolding dist_inv_def
  proof (intro conjI allI impI)
    fix x
    from a l w r [of u] r [of v] r [of x]
    show "0 \<le> sint ((dist(v := dist u + w)) x)" "sint ((dist(v := dist u + w)) x) \<le> 1000000000"
      by auto
    from nw wk [of x]
    show "walk graph src (sint ((dist(v := dist u + w)) x)) x
          \<or> (dist(v := dist u + w)) x = init_dist graph x"
      by (cases "x = v") auto
  next
    fix x assume "x \<notin> fst ` set graph"
    with vk nk [of x] show "(dist(v := dist u + w)) x = 0" by auto
  next
    from vs s0 show "(dist(v := dist u + w)) src = 0" by simp
  qed
qed

lemma relax_keeps:
  assumes ok: "weights_ok graph"
  shows "set es \<subseteq> set (edges_of graph u) \<Longrightarrow> dist_inv graph src dist \<Longrightarrow>
         (\<forall>x. x \<noteq> u \<longrightarrow> relaxed graph dist x \<or> (dist x, x) \<in> set pq) \<Longrightarrow>
         relax u es (dist, pq) = (dist', pq') \<Longrightarrow>
         dist_inv graph src dist'
         \<and> (\<forall>x. x \<noteq> u \<longrightarrow> relaxed graph dist' x \<or> (dist' x, x) \<in> set pq')
         \<and> dist' u = dist u
         \<and> (\<forall>x. sint (dist' x) \<le> sint (dist x))
         \<and> (\<forall>v w. (v, w) \<in> set es \<longrightarrow> sint (dist' v) \<le> sint (dist' u) + sint w)
         \<and> potential graph dist' + length pq' \<le> potential graph dist + length pq"
proof (induction es arbitrary: dist pq)
  case Nil
  then show ?case by simp
next
  case (Cons e es)
  obtain v w where e: "e = (v, w)" by (cases e)
  with Cons.prems(1) have ein: "(v, w) \<in> set (edges_of graph u)" and sub: "set es \<subseteq> set (edges_of graph u)"
    by auto
  from ok ein have w: "0 \<le> sint w" "sint w \<le> 1147483647"
    by (auto simp: weights_ok_def)
  note inv = Cons.prems(2)
  note settled = Cons.prems(3)
  from inv have b: "0 \<le> sint (dist u)" "sint (dist u) \<le> 1000000000"
    by (simp_all add: dist_inv_def)
  with w have add: "sint (dist u + w) = sint (dist u) + sint w"
    by (intro sint32_add) auto
  show ?case
  proof (cases "dist u + w <s dist v")
    case True
    let ?d1 = "dist(v := dist u + w)"
    let ?q1 = "pq_push pair_greater pq (dist u + w, v)"
    note up = relax_update [OF ok ein inv True]
    have settled1: "\<forall>x. x \<noteq> u \<longrightarrow> relaxed graph ?d1 x \<or> (?d1 x, x) \<in> set ?q1"
    proof (intro allI impI)
      fix x assume xu: "x \<noteq> u"
      show "relaxed graph ?d1 x \<or> (?d1 x, x) \<in> set ?q1"
      proof (cases "x = v")
        case True
        then show ?thesis by (simp add: set_pq_push)
      next
        case False
        from settled xu have "relaxed graph dist x \<or> (dist x, x) \<in> set pq" by blast
        then show ?thesis
        proof
          assume r: "relaxed graph dist x"
          have "sint (?d1 y) \<le> sint (?d1 x) + sint w'" if "(y, w') \<in> set (edges_of graph x)" for y w'
          proof -
            from r that have "sint (dist y) \<le> sint (dist x) + sint w'"
              unfolding relaxed_def by blast
            with up(1,2) False show ?thesis
              by (cases "y = v") simp_all
          qed
          then show ?thesis unfolding relaxed_def by blast
        next
          assume "(dist x, x) \<in> set pq"
          with False show ?thesis by (simp add: set_pq_push)
        qed
      qed
    qed
    from Cons.prems(4) True e have r: "relax u es (?d1, ?q1) = (dist', pq')"
      by simp
    from Cons.IH [OF sub up(5) settled1 r]
    have i1: "dist_inv graph src dist'"
      and i2: "\<forall>x. x \<noteq> u \<longrightarrow> relaxed graph dist' x \<or> (dist' x, x) \<in> set pq'"
      and i3: "dist' u = ?d1 u"
      and i4: "\<forall>x. sint (dist' x) \<le> sint (?d1 x)"
      and i5: "\<forall>v w. (v, w) \<in> set es \<longrightarrow> sint (dist' v) \<le> sint (dist' u) + sint w"
      and i6: "potential graph dist' + length pq' \<le> potential graph ?d1 + length ?q1"
      by blast+
    from i3 up(3) have du: "dist' u = dist u" by simp
    have mono: "\<forall>x. sint (dist' x) \<le> sint (dist x)"
    proof
      fix x
      from i4 have "sint (dist' x) \<le> sint (?d1 x)" by blast
      with up(1,2) show "sint (dist' x) \<le> sint (dist x)"
        by (cases "x = v") simp_all
    qed
    from i4 have "sint (dist' v) \<le> sint (?d1 v)" by blast
    with up(1) du have hd: "sint (dist' v) \<le> sint (dist' u) + sint w"
      by simp
    have c5: "\<forall>v' w'. (v', w') \<in> set (e # es) \<longrightarrow> sint (dist' v') \<le> sint (dist' u) + sint w'"
    proof (intro allI impI)
      fix v' w' assume "(v', w') \<in> set (e # es)"
      then have "(v', w') = (v, w) \<or> (v', w') \<in> set es"
        by (simp add: e)
      with hd i5 show "sint (dist' v') \<le> sint (dist' u) + sint w'"
        by blast
    qed
    from b w up(1) have "0 \<le> sint (dist u + w)"
      by simp
    with up(1,2) have "potential graph ?d1 + 1 \<le> potential graph dist"
      by (intro potential_update [OF up(4)]) simp_all
    moreover have "length ?q1 = Suc (length pq)"
      by (rule length_pq_push)
    ultimately have pot: "potential graph dist' + length pq' \<le> potential graph dist + length pq"
      using i6 by linarith
    from i1 i2 du mono c5 pot show ?thesis
      by blast
  next
    case False
    with add have le: "sint (dist v) \<le> sint (dist u) + sint w"
      by (simp add: word_sless_alt)
    from Cons.prems(4) False e have r: "relax u es (dist, pq) = (dist', pq')"
      by simp
    from Cons.IH [OF sub inv settled r]
    have i1: "dist_inv graph src dist'"
      and i2: "\<forall>x. x \<noteq> u \<longrightarrow> relaxed graph dist' x \<or> (dist' x, x) \<in> set pq'"
      and i3: "dist' u = dist u"
      and i4: "\<forall>x. sint (dist' x) \<le> sint (dist x)"
      and i5: "\<forall>v w. (v, w) \<in> set es \<longrightarrow> sint (dist' v) \<le> sint (dist' u) + sint w"
      and i6: "potential graph dist' + length pq' \<le> potential graph dist + length pq"
      by blast+
    from i4 have "sint (dist' v) \<le> sint (dist v)" by blast
    with le i3 have hd: "sint (dist' v) \<le> sint (dist' u) + sint w"
      by simp
    have c5: "\<forall>v' w'. (v', w') \<in> set (e # es) \<longrightarrow> sint (dist' v') \<le> sint (dist' u) + sint w'"
    proof (intro allI impI)
      fix v' w' assume "(v', w') \<in> set (e # es)"
      then have "(v', w') = (v, w) \<or> (v', w') \<in> set es"
        by (simp add: e)
      with hd i5 show "sint (dist' v') \<le> sint (dist' u) + sint w'"
        by blast
    qed
    from i1 i2 i3 i4 c5 i6 show ?thesis
      by blast
  qed
qed

subsection \<open>The loop ends, with every node relaxed\<close>

lemma dijkstra_loop_empty: "dijkstra_loop graph dist [] = Some dist"
  by (subst dijkstra_loop.simps) simp

lemma dijkstra_loop_stale:
  "pq \<noteq> [] \<Longrightarrow> pq_top pq = (d, u) \<Longrightarrow> dist u <s d \<Longrightarrow>
   dijkstra_loop graph dist pq = dijkstra_loop graph dist (pq_pop pair_greater pq)"
  by (subst dijkstra_loop.simps) simp

lemma dijkstra_loop_relax:
  "pq \<noteq> [] \<Longrightarrow> pq_top pq = (d, u) \<Longrightarrow> \<not> dist u <s d \<Longrightarrow>
   relax u (edges_of graph u) (dist, pq_pop pair_greater pq) = (dist1, pq1) \<Longrightarrow>
   dijkstra_loop graph dist pq = dijkstra_loop graph dist1 pq1"
  by (subst dijkstra_loop.simps) simp

lemma dijkstra_loop_total:
  assumes ok: "weights_ok graph"
  shows "dist_inv graph src dist \<Longrightarrow> (\<forall>x. relaxed graph dist x \<or> (dist x, x) \<in> set pq) \<Longrightarrow>
         \<exists>dist'. dijkstra_loop graph dist pq = Some dist' \<and> dist_inv graph src dist'
                \<and> (\<forall>x. relaxed graph dist' x)"
proof (induction "potential graph dist + length pq" arbitrary: dist pq rule: less_induct)
  case less
  note inv = less.prems(1) and settled = less.prems(2)
  show ?case
  proof (cases "pq = []")
    case True
    with settled have "\<forall>x. relaxed graph dist x"
      by simp
    with inv True show ?thesis
      by (simp add: dijkstra_loop_empty)
  next
    case False
    obtain d u where top: "pq_top pq = (d, u)" by (cases "pq_top pq")
    let ?q = "pq_pop pair_greater pq"
    from False have m: "mset ?q = mset pq - {#(d, u)#}"
      by (simp add: mset_pq_pop top)
    from False have len: "length ?q < length pq"
      by simp
    have keep: "(a, x) \<in> set ?q" if "(a, x) \<in> set pq" "(a, x) \<noteq> (d, u)" for a x
    proof -
      from m have "mset ?q = mset (remove1 (d, u) pq)"
        by simp
      then have "set ?q = set (remove1 (d, u) pq)"
        by (rule mset_eq_setD)
      with that show ?thesis
        by (simp add: in_set_remove1)
    qed
    show ?thesis
    proof (cases "dist u <s d")
      case True
      have s: "\<forall>x. relaxed graph dist x \<or> (dist x, x) \<in> set ?q"
      proof
        fix x
        from settled have "relaxed graph dist x \<or> (dist x, x) \<in> set pq" by blast
        moreover from True have "(dist x, x) \<noteq> (d, u)"
          by (auto simp: word_sless_alt)
        ultimately show "relaxed graph dist x \<or> (dist x, x) \<in> set ?q"
          using keep by blast
      qed
      from len have "potential graph dist + length ?q < potential graph dist + length pq"
        by simp
      then have "\<exists>dist'. dijkstra_loop graph dist ?q = Some dist' \<and> dist_inv graph src dist'
                \<and> (\<forall>x. relaxed graph dist' x)"
        using inv s by (rule less.hyps)
      then show ?thesis
        by (simp only: dijkstra_loop_stale [where dist = dist and graph = graph, OF False top True])
    next
      case nstale: False
      obtain dist1 pq1 where r: "relax u (edges_of graph u) (dist, ?q) = (dist1, pq1)"
        by (cases "relax u (edges_of graph u) (dist, ?q)")
      have "\<forall>x. x \<noteq> u \<longrightarrow> relaxed graph dist x \<or> (dist x, x) \<in> set ?q"
      proof (intro allI impI)
        fix x assume "x \<noteq> u"
        then have "(dist x, x) \<noteq> (d, u)" by simp
        with settled keep show "relaxed graph dist x \<or> (dist x, x) \<in> set ?q"
          by blast
      qed
      from relax_keeps [OF ok subset_refl inv this r]
      have inv1: "dist_inv graph src dist1"
        and s1: "\<forall>x. x \<noteq> u \<longrightarrow> relaxed graph dist1 x \<or> (dist1 x, x) \<in> set pq1"
        and ru: "\<forall>v w. (v, w) \<in> set (edges_of graph u) \<longrightarrow> sint (dist1 v) \<le> sint (dist1 u) + sint w"
        and pot: "potential graph dist1 + length pq1 \<le> potential graph dist + length ?q"
        by blast+
      from ru have reu: "relaxed graph dist1 u"
        unfolding relaxed_def .
      have settled1: "\<forall>x. relaxed graph dist1 x \<or> (dist1 x, x) \<in> set pq1"
      proof
        fix x
        show "relaxed graph dist1 x \<or> (dist1 x, x) \<in> set pq1"
        proof (cases "x = u")
          case True
          with reu show ?thesis by simp
        next
          case False
          from spec [OF s1, of x] False show ?thesis by (rule mp)
        qed
      qed
      from pot len have "potential graph dist1 + length pq1 < potential graph dist + length pq"
        by simp
      then have "\<exists>dist'. dijkstra_loop graph dist1 pq1 = Some dist' \<and> dist_inv graph src dist'
                \<and> (\<forall>x. relaxed graph dist' x)"
        using inv1 settled1 by (rule less.hyps)
      then show ?thesis
        by (simp only: dijkstra_loop_relax [where dist = dist and graph = graph, OF False top nstale r])
    qed
  qed
qed

subsection \<open>The distances at the end\<close>

lemma init_state:
  assumes ok: "weights_ok graph"
  shows "dist_inv graph src ((init_dist graph)(src := 0))"
    and "\<forall>x. relaxed graph ((init_dist graph)(src := 0)) x
            \<or> (((init_dist graph)(src := 0)) x, x) \<in> set (pq_push pair_greater [] (0, src))"
proof -
  let ?d = "(init_dist graph)(src := 0)"
  have r: "0 \<le> sint (?d v) \<and> sint (?d v) \<le> 1000000000" for v
    by (simp add: init_dist_eq)
  have "walk graph src (sint (?d v)) v \<or> ?d v = init_dist graph v" for v
    by (cases "v = src") (simp_all add: walk_refl)
  with r show "dist_inv graph src ?d"
    unfolding dist_inv_def by (simp add: init_dist_eq)
  show "\<forall>x. relaxed graph ?d x \<or> (?d x, x) \<in> set (pq_push pair_greater [] (0, src))"
  proof
    fix x
    show "relaxed graph ?d x \<or> (?d x, x) \<in> set (pq_push pair_greater [] (0, src))"
    proof (cases "x = src")
      case True
      then show ?thesis by (simp add: pq_push_empty)
    next
      case False
      have "sint (?d v) \<le> sint (?d x) + sint w" if e: "(v, w) \<in> set (edges_of graph x)" for v w
      proof -
        from ok e have "0 \<le> sint w"
          unfolding weights_ok_def by blast
        moreover from edges_of_key [OF e] False have "sint (?d x) = 1000000000"
          by (simp add: init_dist_eq)
        ultimately show ?thesis
          using r [of v] by linarith
      qed
      then have "relaxed graph ?d x"
        unfolding relaxed_def by blast
      then show ?thesis ..
    qed
  qed
qed

lemma shortest_path_final:
  assumes ok: "weights_ok graph"
  shows "\<exists>dist'. shortest_path graph src dest = Some (dist' dest) \<and> dist_inv graph src dist'
            \<and> (\<forall>x. relaxed graph dist' x)"
proof -
  from dijkstra_loop_total [OF ok init_state [OF ok]]
  obtain dist' where "dijkstra_loop graph ((init_dist graph)(src := 0)) (pq_push pair_greater [] (0, src)) = Some dist'"
    and "dist_inv graph src dist'" and "\<forall>x. relaxed graph dist' x"
    by blast
  then show ?thesis
    unfolding shortest_path_def by (intro exI [of _ dist']) simp
qed

lemma walk_lower_bound:
  assumes "dist' src = 0" and r: "\<forall>x. relaxed graph dist' x" and "walk graph src c v"
  shows "sint (dist' v) \<le> c"
  using assms(3)
proof (induction rule: walk.induct)
  case walk_refl
  from assms(1) show ?case by simp
next
  case (walk_step c v x w)
  from r have "relaxed graph dist' v" ..
  with walk_step.hyps(2) have "sint (dist' x) \<le> sint (dist' v) + sint w"
    unfolding relaxed_def by blast
  with walk_step.IH show ?case by linarith
qed

subsection \<open>Runs on example graphs\<close>

lemmas run_simps =
  shortest_path_def init_dist_def dijkstra_loop.simps edges_of_def
  pq_push_def push_heap_def push_heap_impl.simps
  pq_pop_def pq_top_def pop_heap_def adjust_heap_def adjust_heap_loop.simps
  pair_greater_def word_sless_alt Let_def less_char_def

lemma seed_path: "shortest_path seed_graph ''Gate'' ''Laundry'' = Some 3"
  by (simp add: seed_graph_def run_simps)

lemma island_path: "shortest_path island_graph ''A'' ''B'' = Some 1000000000"
  by (simp add: island_graph_def run_simps)

lemma long_edge_path: "shortest_path long_edge_graph ''A'' ''B'' = Some 1000000000"
  by (simp add: long_edge_graph_def run_simps)

lemma chain_path: "shortest_path chain_graph ''A'' ''C'' = Some 1000000000"
  by (simp add: chain_graph_def run_simps)

text \<open>
  A destination that is no key of the graph was never given the value \<open>10^9\<close>: its
  distance reads as 0, whatever leads to it. The claims below are about destinations
  that are keys.
\<close>

lemma no_key_path: "shortest_path [(''A'', [(''B'', 5)])] ''A'' ''B'' = Some 0"
  by (simp add: run_simps)

lemma island_walks: "walk island_graph ''A'' c v \<Longrightarrow> v = ''A''"
  by (induction rule: walk.induct) (auto simp: island_graph_def edges_of_def split: if_splits)

lemma long_edge_walk: "walk long_edge_graph ''A'' 1000000000 ''B''"
proof -
  have "(''B'', 1000000000) \<in> set (edges_of long_edge_graph ''A'')"
    by (simp add: long_edge_graph_def edges_of_def)
  from walk_step [OF walk_refl this] show ?thesis by simp
qed

lemma chain_walks:
  "walk chain_graph ''A'' c v \<Longrightarrow>
   (v = ''A'' \<and> c = 0) \<or> (v = ''B'' \<and> c = 600000000) \<or> (v = ''C'' \<and> c = 1200000000)"
  by (induction rule: walk.induct) (auto simp: chain_graph_def edges_of_def split: if_splits)

lemma chain_walk: "walk chain_graph ''A'' 1200000000 ''C''"
proof -
  have "(''B'', 600000000) \<in> set (edges_of chain_graph ''A'')"
    by (simp add: chain_graph_def edges_of_def)
  from walk_step [OF walk_refl this] have "walk chain_graph ''A'' 600000000 ''B''" by simp
  moreover have "(''C'', 600000000) \<in> set (edges_of chain_graph ''B'')"
    by (simp add: chain_graph_def edges_of_def)
  ultimately have "walk chain_graph ''A'' (600000000 + sint (600000000 :: int32)) ''C''"
    by (rule walk_step)
  then show ?thesis by simp
qed

lemma seed_weights_ok: "weights_ok seed_graph"
  unfolding weights_ok_def
  by (auto simp: seed_graph_def edges_of_def split: if_splits)

lemma island_weights_ok: "weights_ok island_graph"
  unfolding weights_ok_def
  by (auto simp: island_graph_def edges_of_def split: if_splits)

lemma seed_walk: "walk seed_graph ''Gate'' 3 ''Laundry''"
proof -
  have "(''Mess'', 2) \<in> set (edges_of seed_graph ''Gate'')"
    by (simp add: seed_graph_def edges_of_def)
  from walk_step [OF walk_refl this] have "walk seed_graph ''Gate'' 2 ''Mess''" by simp
  moreover have "(''Laundry'', 1) \<in> set (edges_of seed_graph ''Mess'')"
    by (simp add: seed_graph_def edges_of_def)
  ultimately have "walk seed_graph ''Gate'' (2 + sint (1 :: int32)) ''Laundry''"
    by (rule walk_step)
  then show ?thesis by simp
qed

subsection \<open>The claims about the shortest path\<close>

text \<open>
  C4, as stated, fails where the least weight is \<open>10^9\<close> or more: in the chain
  A \<open>\<rightarrow>\<close> B \<open>\<rightarrow>\<close> C with weights 600000000 the only walk from A to C weighs
  1200000000, but the value computed is 1000000000, the value \<^verbatim>\<open>dist\<close> starts with.
\<close>

theorem capped_distance_counterexample:
  "shortest_path chain_graph ''A'' ''C'' = Some 1000000000
   \<and> walk chain_graph ''A'' 1200000000 ''C''
   \<and> \<not> (\<exists>c. walk chain_graph ''A'' c ''C'' \<and> c \<noteq> 1200000000)"
proof -
  have "\<not> (\<exists>c. walk chain_graph ''A'' c ''C'' \<and> c \<noteq> 1200000000)"
    using chain_walks [of _ "''C''"] by auto
  with chain_path chain_walk show ?thesis by blast
qed

text \<open>
  C4, amended. For every graph whose weights lie between 0 and \<open>2^31 - 1 - 10^9\<close> the
  loop ends; the value for the source itself is 0; and for a destination that is a
  key of the graph (or the source): if some walk from the source to it weighs less
  than \<open>10^9\<close>, the value is the least weight of all walks, and otherwise it is
  \<open>10^9\<close>. On the graph of the program the value for Gate to Laundry is 3.
\<close>

theorem shortest_path_least:
  assumes ok: "weights_ok graph"
  shows "shortest_path graph src src = Some 0
       \<and> (\<exists>d. shortest_path graph src dest = Some d
             \<and> (dest \<in> fst ` set graph \<or> dest = src \<longrightarrow>
                  ((\<exists>c. walk graph src c dest \<and> c < 1000000000) \<longrightarrow>
                     walk graph src (sint d) dest \<and> (\<forall>c. walk graph src c dest \<longrightarrow> sint d \<le> c))
                  \<and> (\<not> (\<exists>c. walk graph src c dest \<and> c < 1000000000) \<longrightarrow> d = 1000000000)))
       \<and> shortest_path seed_graph ''Gate'' ''Laundry'' = Some 3"
proof (intro conjI)
  from shortest_path_final [OF ok, of src src]
  obtain dist' where "shortest_path graph src src = Some (dist' src)" and "dist_inv graph src dist'"
    by blast
  then show "shortest_path graph src src = Some 0"
    by (simp add: dist_inv_def)
next
  from shortest_path_final [OF ok, of src dest]
  obtain dist' where sp: "shortest_path graph src dest = Some (dist' dest)"
    and inv: "dist_inv graph src dist'" and rel: "\<forall>x. relaxed graph dist' x"
    by blast
  let ?d = "dist' dest"
  from inv have z: "dist' src = 0" and hi: "sint ?d \<le> 1000000000"
    and w: "walk graph src (sint ?d) dest \<or> ?d = init_dist graph dest"
    unfolding dist_inv_def by blast+
  have low: "sint ?d \<le> c" if "walk graph src c dest" for c
    using z rel that by (rule walk_lower_bound)
  have reach: "walk graph src (sint ?d) dest" if k: "dest \<in> fst ` set graph \<or> dest = src" and lt: "sint ?d < 1000000000"
  proof (cases "dest = src")
    case True
    with z show ?thesis by (simp add: walk_refl)
  next
    case False
    with k have "init_dist graph dest = 1000000000"
      by (simp add: init_dist_eq)
    with w lt show ?thesis by auto
  qed
  have "(\<exists>c. walk graph src c dest \<and> c < 1000000000) \<longrightarrow>
          walk graph src (sint ?d) dest \<and> (\<forall>c. walk graph src c dest \<longrightarrow> sint ?d \<le> c)"
    if k: "dest \<in> fst ` set graph \<or> dest = src"
  proof
    assume "\<exists>c. walk graph src c dest \<and> c < 1000000000"
    then obtain c where "walk graph src c dest" "c < 1000000000" by blast
    with low [of c] have "sint ?d < 1000000000" by simp
    with k have "walk graph src (sint ?d) dest" by (rule reach)
    with low show "walk graph src (sint ?d) dest \<and> (\<forall>c. walk graph src c dest \<longrightarrow> sint ?d \<le> c)"
      by blast
  qed
  moreover have "\<not> (\<exists>c. walk graph src c dest \<and> c < 1000000000) \<longrightarrow> ?d = 1000000000"
    if k: "dest \<in> fst ` set graph \<or> dest = src"
  proof
    assume none: "\<not> (\<exists>c. walk graph src c dest \<and> c < 1000000000)"
    have "\<not> sint ?d < 1000000000"
    proof
      assume lt: "sint ?d < 1000000000"
      with k have "walk graph src (sint ?d) dest" by (rule reach)
      with lt none show False by blast
    qed
    with hi have "sint ?d = sint (1000000000 :: int32)" by simp
    then show "?d = 1000000000" by (rule signed_word_eqI)
  qed
  ultimately show "\<exists>d. shortest_path graph src dest = Some d
             \<and> (dest \<in> fst ` set graph \<or> dest = src \<longrightarrow>
                  ((\<exists>c. walk graph src c dest \<and> c < 1000000000) \<longrightarrow>
                     walk graph src (sint d) dest \<and> (\<forall>c. walk graph src c dest \<longrightarrow> sint d \<le> c))
                  \<and> (\<not> (\<exists>c. walk graph src c dest \<and> c < 1000000000) \<longrightarrow> d = 1000000000))"
    using sp by (intro exI [of _ ?d]) blast
next
  show "shortest_path seed_graph ''Gate'' ''Laundry'' = Some 3"
    by (rule seed_path)
qed

theorem shortest_path_least_witness:
  "weights_ok seed_graph
   \<and> shortest_path seed_graph ''Gate'' ''Gate'' = Some 0
   \<and> shortest_path seed_graph ''Gate'' ''Laundry'' = Some 3
   \<and> walk seed_graph ''Gate'' 3 ''Laundry''
   \<and> \<not> (\<exists>c. walk seed_graph ''Gate'' c ''Laundry'' \<and> c < 3)"
proof -
  note t = shortest_path_least [OF seed_weights_ok, of "''Gate''" "''Laundry''"]
  from t have a: "shortest_path seed_graph ''Gate'' ''Gate'' = Some 0"
    and b: "shortest_path seed_graph ''Gate'' ''Laundry'' = Some 3"
    by blast+
  have k: "''Laundry'' \<in> fst ` set seed_graph \<or> ''Laundry'' = ''Gate''"
    by (simp add: seed_graph_def)
  have e: "\<exists>c. walk seed_graph ''Gate'' c ''Laundry'' \<and> c < 1000000000"
    using seed_walk by (intro exI [of _ 3]) simp
  from t obtain d where d: "shortest_path seed_graph ''Gate'' ''Laundry'' = Some d"
    and m: "''Laundry'' \<in> fst ` set seed_graph \<or> ''Laundry'' = ''Gate'' \<longrightarrow>
              ((\<exists>c. walk seed_graph ''Gate'' c ''Laundry'' \<and> c < 1000000000) \<longrightarrow>
                 walk seed_graph ''Gate'' (sint d) ''Laundry''
                 \<and> (\<forall>c. walk seed_graph ''Gate'' c ''Laundry'' \<longrightarrow> sint d \<le> c))"
    by blast
  from d b have "d = 3" by simp
  with m k e have "walk seed_graph ''Gate'' 3 ''Laundry''"
    and l: "\<forall>c. walk seed_graph ''Gate'' c ''Laundry'' \<longrightarrow> 3 \<le> c"
    by auto
  moreover from l have "\<not> (\<exists>c. walk seed_graph ''Gate'' c ''Laundry'' \<and> c < 3)"
    by auto
  ultimately show ?thesis
    using seed_weights_ok a b by blast
qed

text \<open>
  C5, as stated, fails: the value for a destination that cannot be reached is the
  \<^verbatim>\<open>int\<close> 1000000000, which is also the value for a destination at the distance
  \<open>10^9\<close>.
\<close>

theorem unreachable_is_number_counterexample:
  "shortest_path island_graph ''A'' ''B'' = Some 1000000000
   \<and> \<not> (\<exists>c. walk island_graph ''A'' c ''B'')
   \<and> shortest_path long_edge_graph ''A'' ''B'' = Some 1000000000
   \<and> walk long_edge_graph ''A'' 1000000000 ''B''"
proof -
  have "\<not> (\<exists>c. walk island_graph ''A'' c ''B'')"
    using island_walks [of _ "''B''"] by auto
  with island_path long_edge_path long_edge_walk show ?thesis by blast
qed

text \<open>
  C5, amended. For every graph whose weights lie between 0 and \<open>2^31 - 1 - 10^9\<close>, every
  source and every destination that is a key of the graph: if no walk leads from the
  source to the destination, the value computed is the number 1000000000.
\<close>

theorem unreachable_sentinel:
  assumes "weights_ok graph" and "dest \<in> fst ` set graph"
    and "\<not> (\<exists>c. walk graph src c dest)"
  shows "shortest_path graph src dest = Some 1000000000"
proof -
  from shortest_path_final [OF assms(1), of src dest]
  obtain dist' where sp: "shortest_path graph src dest = Some (dist' dest)"
    and inv: "dist_inv graph src dist'"
    by blast
  from inv have "walk graph src (sint (dist' dest)) dest \<or> dist' dest = init_dist graph dest"
    unfolding dist_inv_def by blast
  with assms(3) have "dist' dest = init_dist graph dest"
    by blast
  with assms(2) sp show ?thesis
    by (simp add: init_dist_eq)
qed

theorem unreachable_sentinel_witness:
  "weights_ok island_graph \<and> ''B'' \<in> fst ` set island_graph
   \<and> \<not> (\<exists>c. walk island_graph ''A'' c ''B'')
   \<and> shortest_path island_graph ''A'' ''B'' = Some 1000000000"
proof -
  have k: "''B'' \<in> fst ` set island_graph"
    by (simp add: island_graph_def)
  have n: "\<not> (\<exists>c. walk island_graph ''A'' c ''B'')"
    using island_walks [of _ "''B''"] by auto
  from unreachable_sentinel [OF island_weights_ok k n] island_weights_ok k n
  show ?thesis by blast
qed

section \<open>FoodFight: the counts\<close>

lemma length_fold_prefix:
  "length (fold (\<lambda>i prefix. prefix[i + 1 := prefix ! i + 1]) is p) = length p"
  by (induction "is" arbitrary: p) auto

lemma fold_prefix_upt:
  "m < length p \<Longrightarrow>
   (\<forall>k. k \<le> m \<longrightarrow> fold (\<lambda>i prefix. prefix[i + 1 := prefix ! i + 1]) [0 ..< m] p ! k = p ! 0 + of_nat k)"
proof (induction m)
  case 0
  then show ?case by simp
next
  case (Suc m)
  let ?q = "fold (\<lambda>i prefix. prefix[i + 1 := prefix ! i + 1]) [0 ..< m] p"
  from Suc have ih: "\<forall>k. k \<le> m \<longrightarrow> ?q ! k = p ! 0 + of_nat k"
    by simp
  have len: "length ?q = length p"
    by (rule length_fold_prefix)
  show ?case
  proof (intro allI impI)
    fix k assume "k \<le> Suc m"
    with ih len Suc.prems show "fold (\<lambda>i prefix. prefix[i + 1 := prefix ! i + 1]) [0 ..< Suc m] p ! k = p ! 0 + of_nat k"
      by (cases "k = Suc m") (auto simp: nth_list_update ac_simps)
  qed
qed

lemma prefix_counts_nth: "k \<le> length entryTimes \<Longrightarrow> prefix_counts entryTimes ! k = of_nat k"
  using fold_prefix_upt [of "length entryTimes" "replicate (length entryTimes + 1) (0 :: int32)"]
  by (simp add: prefix_counts_def)

lemma prefix_difference:
  "i + window \<le> length entryTimes \<Longrightarrow>
   prefix_counts entryTimes ! (i + window) - prefix_counts entryTimes ! i = of_nat window"
  by (simp add: prefix_counts_nth)

lemma queue_lines_const:
  assumes "1 \<le> window" and "\<forall>i \<in> set starts. i + window \<le> length entryTimes"
  shows "queue_lines entryTimes (prefix_counts entryTimes) window starts =
           Some (map (\<lambda>i. (entryTimes ! i, entryTimes ! (i + window - 1), of_nat window)) starts)"
  using assms by (induction starts) (auto simp: elem_def prefix_difference)

lemma best_entry_const:
  assumes "1 \<le> window" and "\<forall>i \<in> set starts. i + window \<le> length entryTimes"
  shows "best_entry entryTimes (prefix_counts entryTimes) window starts (b, m) =
           Some (if starts \<noteq> [] \<and> of_nat window <s m then (entryTimes ! hd starts, of_nat window)
                 else (b, m))"
  using assms by (induction starts arbitrary: b m) (auto simp: elem_def prefix_difference Let_def)

text \<open>
  C8, as stated, fails for a sequence shorter than the window: there is no window
  line, but the run still reports a best time, with "minimum" the length of the
  sequence (here 1, with the window 2).
\<close>

theorem short_sequence_counterexample:
  "FoodFight_run [7] 2 = Some \<lparr>window_lines = [], best_time = 7, min_queue = 1\<rparr>"
  by (simp add: FoodFight_run_def window_starts_def elem_def)

text \<open>
  C8, amended. For a window \<open>W \<ge> 1\<close> and every sequence of length \<open>N\<close> below \<open>2^31\<close>
  (non-decreasing or not): if \<open>N \<ge> W\<close> the run reports \<open>N + 1 - W\<close> windows, each with
  the count \<open>W\<close>, and the minimum \<open>W\<close> with the first element as best time; if
  \<open>0 < N < W\<close> it reports no window, and the minimum \<open>N\<close> with the first element as
  best time.
\<close>

theorem window_counts:
  assumes "1 \<le> window" and "length entryTimes < 2147483648"
  shows "(window \<le> length entryTimes \<longrightarrow>
            (\<exists>r. FoodFight_run entryTimes window = Some r
               \<and> map (\<lambda>l. sint (snd (snd l))) (window_lines r)
                   = replicate (length entryTimes + 1 - window) (int window)
               \<and> sint (min_queue r) = int window
               \<and> best_time r = entryTimes ! 0))
       \<and> (length entryTimes < window \<and> entryTimes \<noteq> [] \<longrightarrow>
            FoodFight_run entryTimes window =
              Some \<lparr>window_lines = [], best_time = entryTimes ! 0,
                    min_queue = of_nat (length entryTimes)\<rparr>)"
proof (intro conjI impI)
  assume le: "window \<le> length entryTimes"
  let ?n = "length entryTimes"
  let ?starts = "window_starts ?n window"
  have in_range: "\<forall>i \<in> set ?starts. i + window \<le> ?n"
    by (auto simp: window_starts_def)
  from assms le have ne: "entryTimes \<noteq> []" and hd0: "?starts \<noteq> []" "hd ?starts = 0"
    by (auto simp: window_starts_def upt_conv_Cons)
  from assms le have sw: "sint (of_nat window :: int32) = int window"
    and sn: "sint (of_nat ?n :: int32) = int ?n"
    by (simp_all add: sint32_of_nat)
  let ?ls = "map (\<lambda>i. (entryTimes ! i, entryTimes ! (i + window - 1), of_nat window :: int32)) ?starts"
  let ?m = "if (of_nat window :: int32) <s of_nat ?n then of_nat window else of_nat ?n :: int32"
  have run: "FoodFight_run entryTimes window =
      Some \<lparr>window_lines = ?ls, best_time = entryTimes ! 0, min_queue = ?m\<rparr>"
    using ne hd0
    by (simp add: FoodFight_run_def Let_def queue_lines_const [OF assms(1) in_range]
        best_entry_const [OF assms(1) in_range] elem_def)
  have cnt: "map (\<lambda>l. sint (snd (snd l))) ?ls = replicate (?n + 1 - window) (int window)"
    by (simp add: window_starts_def sw comp_def map_replicate_const)
  from le sw sn have "sint ?m = int window"
    by (auto simp: word_sless_alt)
  with run cnt
  show "\<exists>r. FoodFight_run entryTimes window = Some r
          \<and> map (\<lambda>l. sint (snd (snd l))) (window_lines r) = replicate (?n + 1 - window) (int window)
          \<and> sint (min_queue r) = int window
          \<and> best_time r = entryTimes ! 0"
    by simp
next
  assume "length entryTimes < window \<and> entryTimes \<noteq> []"
  then show "FoodFight_run entryTimes window =
      Some \<lparr>window_lines = [], best_time = entryTimes ! 0, min_queue = of_nat (length entryTimes)\<rparr>"
    by (simp add: FoodFight_run_def window_starts_def elem_def)
qed

theorem window_counts_witness:
  "(1 :: nat) \<le> 2 \<and> length seed_entryTimes < 2147483648 \<and> 2 \<le> length seed_entryTimes
   \<and> (\<exists>r. FoodFight_run seed_entryTimes 2 = Some r
          \<and> map (\<lambda>l. sint (snd (snd l))) (window_lines r) = [2, 2, 2, 2, 2, 2]
          \<and> sint (min_queue r) = 2 \<and> best_time r = 1)"
proof -
  have a: "(1 :: nat) \<le> 2" "length seed_entryTimes < 2147483648"
    and b: "2 \<le> length seed_entryTimes"
    by (simp_all add: seed_entryTimes_def)
  from window_counts [OF a] b
  have "\<exists>r. FoodFight_run seed_entryTimes 2 = Some r
          \<and> map (\<lambda>l. sint (snd (snd l))) (window_lines r)
              = replicate (length seed_entryTimes + 1 - 2) (int 2)
          \<and> sint (min_queue r) = int 2
          \<and> best_time r = seed_entryTimes ! 0"
    by blast
  moreover have "replicate (length seed_entryTimes + 1 - 2) (int 2) = [2, 2, 2, 2, 2, 2]"
    by (simp add: seed_entryTimes_def numeral_eq_Suc)
  moreover have "seed_entryTimes ! 0 = 1"
    by (simp add: seed_entryTimes_def)
  ultimately show ?thesis
    using a b by simp
qed

end
